theory Spec2Isabelle
  imports Main
begin

section \<open>The snippet lexer of UltiSnips (text\_objects/\_lexer.py)\<close>

text \<open>
  A shallow embedding of \<^verbatim>\<open>plugin/UltiSnips/text_objects/_lexer.py\<close>. The text
  iterator is a record that every operation takes and returns; an exception is the left
  summand of the result and carries the iterator as the raise left it, because the
  iterator object is mutated in place and the driver reads its position after catching
  \<^verbatim>\<open>StopIteration\<close>. Characters are HOL characters, standing for the code points
  below 256 of the unicode text; the classes \<^verbatim>\<open>\d\<close> and \<^verbatim>\<open>\s\<close> of the
  \<^verbatim>\<open>re\<close> module and the line boundaries of \<^verbatim>\<open>splitlines\<close> are the ones
  a unicode pattern or string has on that range.
\<close>

subsection \<open>Exceptions, positions and the text iterator\<close>

datatype exn = StopIteration | RuntimeError string | IndexError | ValueError | TypeError

text \<open>
  Modelled from the spec: the class \<^verbatim>\<open>Position\<close> of \<^verbatim>\<open>UltiSnips.geometry\<close>,
  which is not among the sources. The spec gives it the two coordinates (line, column);
  its order is the lexicographic one on that pair.
\<close>

record position =
  line :: int
  col :: int

definition pos_le :: "position \<Rightarrow> position \<Rightarrow> bool" where
  "pos_le p q = (line p < line q \<or> (line p = line q \<and> col p \<le> col q))"

record stream =
  s_text :: string
  s_line :: int
  s_col :: int
  s_idx :: nat

type_synonym 'a result = "(exn \<times> stream) + ('a \<times> stream)"

text \<open>\<^verbatim>\<open>_TextIterator.__init__\<close>; \<^verbatim>\<open>as_unicode\<close> leaves a unicode text as it is.\<close>

definition TextIterator :: "string \<Rightarrow> position \<Rightarrow> stream" where
  "TextIterator txt offset =
     \<lparr>s_text = txt, s_line = line offset, s_col = col offset, s_idx = 0\<rparr>"

text \<open>
  Subscripting a string or a list with a non-negative index: out of range raises
  IndexError.
\<close>

definition py_getitem :: "'a list \<Rightarrow> nat \<Rightarrow> exn + 'a" where
  "py_getitem xs i = (if i < length xs then Inr (xs ! i) else Inl IndexError)"

text \<open>
  \<^verbatim>\<open>_TextIterator.next\<close>. The test \<^verbatim>\<open>self._text[self._idx] in ('\n', '\r\n')\<close>
  compares the one-character string with the two strings of the tuple.
\<close>

definition stream_next :: "stream \<Rightarrow> char result" where
  "stream_next s =
     (if s_idx s \<ge> length (s_text s) then Inl (StopIteration, s)
      else
        let rv = s_text s ! s_idx s;
            s1 = (if [s_text s ! s_idx s] \<in> set [[CHR 0x0A], [CHR 0x0D, CHR 0x0A]]
                  then s\<lparr>s_line := s_line s + 1, s_col := 0\<rparr>
                  else s\<lparr>s_col := s_col s + 1\<rparr>)
        in Inr (rv, s1\<lparr>s_idx := s_idx s1 + 1\<rparr>))"

text \<open>
  \<^verbatim>\<open>_TextIterator.peek\<close>: a slice for \<^verbatim>\<open>count > 1\<close>, otherwise the character
  at the index, with the IndexError of the subscript caught and turned into None. The
  result carries the iterator the call leaves behind.
\<close>

definition stream_peek :: "stream \<Rightarrow> int \<Rightarrow> string option result" where
  "stream_peek s count =
     (if count > 1 then Inr (Some (take (nat count) (drop (s_idx s) (s_text s))), s)
      else (case py_getitem (s_text s) (s_idx s) of
              Inr c \<Rightarrow> Inr (Some [c], s)
            | Inl IndexError \<Rightarrow> Inr (None, s)
            | Inl e \<Rightarrow> Inl (e, s)))"

text \<open>The value of \<^verbatim>\<open>stream.peek(count)\<close>, as the callers below use it.\<close>

definition peek :: "stream \<Rightarrow> int \<Rightarrow> string option" where
  "peek s count = (case stream_peek s count of Inr (v, _) \<Rightarrow> v | Inl _ \<Rightarrow> None)"

text \<open>The property \<^verbatim>\<open>pos\<close>.\<close>

definition stream_pos :: "stream \<Rightarrow> position" where
  "stream_pos s = \<lparr>line = s_line s, col = s_col s\<rparr>"

text \<open>The input not yet consumed (a notion of the proofs, not of the source).\<close>

definition upcoming :: "stream \<Rightarrow> string" where
  "upcoming s = drop (s_idx s) (s_text s)"


subsection \<open>Sequencing, and the membership test on strings\<close>

text \<open>
  A statement after a call runs only when the call returned: \<open>rbind r f\<close> passes an
  exception on and otherwise continues with the value and the iterator of \<open>r\<close>.
\<close>

definition rbind :: "'a result \<Rightarrow> ('a \<Rightarrow> stream \<Rightarrow> 'b result) \<Rightarrow> 'b result" where
  "rbind r f = (case r of Inl e \<Rightarrow> Inl e | Inr (v, s) \<Rightarrow> f v s)"

lemma rbind_simps [simp]:
  "rbind (Inl e) f = Inl e"
  "rbind (Inr (v, s)) f = f v s"
  by (simp_all add: rbind_def)

lemma rbind_cong [fundef_cong]:
  "r = r' \<Longrightarrow> (\<And>v s. r' = Inr (v, s) \<Longrightarrow> f v s = f' v s) \<Longrightarrow> rbind r f = rbind r' f'"
  by (auto simp: rbind_def split: sum.splits)

text \<open>\<^verbatim>\<open>x in y\<close> on two strings: \<open>x\<close> occurs in \<open>y\<close> as a substring.\<close>

fun py_in :: "string \<Rightarrow> string \<Rightarrow> bool" where
  "py_in x [] = (x = [])"
| "py_in x (c # cs) = (take (length x) (c # cs) = x \<or> py_in x cs)"

lemma py_in_single [simp]: "py_in [c] ys = (c \<in> set ys)"
  by (induction ys) auto

text \<open>\<^verbatim>\<open>stream.next()\<close> as a statement, and \<^verbatim>\<open>for _ in range(n): stream.next()\<close>.\<close>

fun next_times :: "nat \<Rightarrow> stream \<Rightarrow> unit result" where
  "next_times 0 s = Inr ((), s)"
| "next_times (Suc n) s = rbind (stream_next s) (\<lambda>_ s1. next_times n s1)"

subsection \<open>The shared scanners\<close>

text \<open>\<^verbatim>\<open>_unescape\<close>: the index loop, two characters at a time after a backslash.\<close>

fun unescape :: "string \<Rightarrow> string" where
  "unescape [] = []"
| "unescape [c] = [c]"
| "unescape (c # d # cs) =
     (if c = CHR 0x5C then d # unescape cs else c # unescape (d # cs))"

definition string_digits :: string where
  "string_digits = ''0123456789''"

definition digit_value :: "char \<Rightarrow> int" where
  "digit_value c = int (of_char c) - 48"

text \<open>
  \<^verbatim>\<open>int(rv)\<close> on a text of characters of \<^verbatim>\<open>string.digits\<close>, the only texts
  \<^verbatim>\<open>_parse_number\<close> builds: the empty text raises ValueError.
\<close>

definition py_int :: "string \<Rightarrow> exn + int" where
  "py_int rv = (if rv = [] then Inl ValueError
                else Inr (foldl (\<lambda>n c. 10 * n + digit_value c) 0 rv))"

text \<open>\<^verbatim>\<open>_parse_number\<close>: the while loop, then the conversion.\<close>

function parse_number_loop :: "stream \<Rightarrow> string \<Rightarrow> string result" where
  "parse_number_loop s rv =
     (if (case peek s 1 of None \<Rightarrow> False | Some c \<Rightarrow> c \<noteq> [] \<and> py_in c string_digits)
      then rbind (stream_next s) (\<lambda>ch s1. parse_number_loop s1 (rv @ [ch]))
      else Inr (rv, s))"
  by pat_completeness auto
termination
  by (relation "measure (\<lambda>(s, rv). length (s_text s) - s_idx s)")
     (auto simp: stream_next_def Let_def split: if_splits)

declare parse_number_loop.simps [simp del]

definition parse_number :: "stream \<Rightarrow> int result" where
  "parse_number s =
     rbind (parse_number_loop s []) (\<lambda>rv s1.
       case py_int rv of Inl e \<Rightarrow> Inl (e, s1) | Inr n \<Rightarrow> Inr (n, s1))"

text \<open>
  \<^verbatim>\<open>EscapeCharToken.starts_here(stream, chars)\<close>; it returns True or falls off its end
  (None, false in a condition).
\<close>

definition EscapeCharToken_starts_here :: "stream \<Rightarrow> string \<Rightarrow> bool" where
  "EscapeCharToken_starts_here s chars =
     (case peek s 2 of
        None \<Rightarrow> False
      | Some cs \<Rightarrow> length cs = 2 \<and> cs ! 0 = CHR 0x5C \<and> py_in [cs ! 1] chars)"

text \<open>The default of its parameter \<^verbatim>\<open>chars\<close>: the five characters of \<^verbatim>\<open>r'{}\$`'\<close>.\<close>

definition escapable :: string where
  "escapable = [CHR ''{'', CHR ''}'', CHR 0x5C, CHR ''$'', CHR 0x60]"

text \<open>\<^verbatim>\<open>_parse_till_closing_brace\<close>: the loop carries \<^verbatim>\<open>rv\<close> and \<^verbatim>\<open>in_braces\<close>.\<close>

function parse_till_closing_brace_loop :: "stream \<Rightarrow> string \<Rightarrow> int \<Rightarrow> string result" where
  "parse_till_closing_brace_loop s rv in_braces =
     (if EscapeCharToken_starts_here s ''{}'' then
        rbind (stream_next s) (\<lambda>a s1.
        rbind (stream_next s1) (\<lambda>b s2.
          parse_till_closing_brace_loop s2 (rv @ [a, b]) in_braces))
      else
        rbind (stream_next s) (\<lambda>char s1.
          let in_braces1 = (if char = CHR ''{'' then in_braces + 1
                            else if char = CHR ''}'' then in_braces - 1
                            else in_braces)
          in if in_braces1 = 0 then Inr (rv, s1)
             else parse_till_closing_brace_loop s1 (rv @ [char]) in_braces1))"
  by pat_completeness auto
termination
  by (relation "measure (\<lambda>(s, rv, n). length (s_text s) - s_idx s)")
     (auto simp: stream_next_def Let_def split: if_splits)

declare parse_till_closing_brace_loop.simps [simp del]

definition parse_till_closing_brace :: "stream \<Rightarrow> string result" where
  "parse_till_closing_brace s = parse_till_closing_brace_loop s [] 1"

text \<open>
  \<^verbatim>\<open>_parse_till_unescaped_char\<close>. The inner \<^verbatim>\<open>for char in chars\<close> tests every stop
  character in turn, each on the iterator the one before left, and sets
  \<^verbatim>\<open>escaped\<close>; the while loop then consumes one character unless an escape was
  copied.
\<close>

fun skip_escaped :: "string \<Rightarrow> stream \<Rightarrow> string \<Rightarrow> bool \<Rightarrow> (string \<times> bool) result" where
  "skip_escaped [] s rv escaped = Inr ((rv, escaped), s)"
| "skip_escaped (char # chars) s rv escaped =
     (if EscapeCharToken_starts_here s [char] then
        rbind (stream_next s) (\<lambda>a s1.
        rbind (stream_next s1) (\<lambda>b s2.
          skip_escaped chars s2 (rv @ [a, b]) True))
      else skip_escaped chars s rv escaped)"

subsection \<open>What a call does to the iterator\<close>

text \<open>
  The text between two states of the iterator, \<^verbatim>\<open>text[s.idx : s'.idx]\<close>, and the
  position after a text, counted from a position as \<^verbatim>\<open>next()\<close> counts.
\<close>

definition span :: "stream \<Rightarrow> stream \<Rightarrow> string" where
  "span s s' = take (s_idx s' - s_idx s) (drop (s_idx s) (s_text s))"

definition step_pos :: "position \<Rightarrow> char \<Rightarrow> position" where
  "step_pos p c =
     (if c = CHR 0x0A then \<lparr>line = line p + 1, col = 0\<rparr> else \<lparr>line = line p, col = col p + 1\<rparr>)"

definition walk :: "position \<Rightarrow> string \<Rightarrow> position" where
  "walk p cs = foldl step_pos p cs"

text \<open>
  \<open>advanced s s'\<close>: \<open>s'\<close> is \<open>s\<close> after some calls of \<^verbatim>\<open>next()\<close>: the same text, an
  index that has not gone back and not past the end, and the position of \<open>s\<close> walked
  over the text between the two.
\<close>

definition advanced :: "stream \<Rightarrow> stream \<Rightarrow> bool" where
  "advanced s s' =
     (s_text s' = s_text s \<and> s_idx s \<le> s_idx s' \<and>
      s_idx s' \<le> max (s_idx s) (length (s_text s)) \<and>
      stream_pos s' = walk (stream_pos s) (span s s'))"

text \<open>
  \<open>steps s r\<close>: the result \<open>r\<close> of a call on \<open>s\<close> leaves an advanced iterator, and
  \<^verbatim>\<open>StopIteration\<close> is raised only with the text used up.
\<close>

definition steps :: "stream \<Rightarrow> 'a result \<Rightarrow> bool" where
  "steps s r =
     (case r of
        Inr (v, s') \<Rightarrow> advanced s s'
      | Inl (e, s') \<Rightarrow> advanced s s' \<and> (e = StopIteration \<longrightarrow> length (s_text s') \<le> s_idx s'))"

lemma advanced_refl [simp]: "advanced s s"
  by (simp add: advanced_def span_def walk_def)

lemma span_append:
  "s_text s1 = s_text s \<Longrightarrow> s_idx s \<le> s_idx s1 \<Longrightarrow> s_idx s1 \<le> s_idx s2 \<Longrightarrow>
     span s s2 = span s s1 @ span s1 s2"
proof -
  assume t: "s_text s1 = s_text s" and a: "s_idx s \<le> s_idx s1" and b: "s_idx s1 \<le> s_idx s2"
  have "s_idx s2 - s_idx s = (s_idx s1 - s_idx s) + (s_idx s2 - s_idx s1)"
    using a b by simp
  then have "span s s2 =
      take (s_idx s1 - s_idx s) (drop (s_idx s) (s_text s)) @
      take (s_idx s2 - s_idx s1) (drop (s_idx s1 - s_idx s) (drop (s_idx s) (s_text s)))"
    unfolding span_def by (simp only: take_add)
  with t a show ?thesis by (simp add: span_def)
qed

lemma advanced_trans: "advanced s s1 \<Longrightarrow> advanced s1 s2 \<Longrightarrow> advanced s s2"
proof -
  assume a: "advanced s s1" and b: "advanced s1 s2"
  then have sp: "span s s2 = span s s1 @ span s1 s2"
    by (intro span_append) (simp_all add: advanced_def)
  from a b show ?thesis
    unfolding advanced_def sp by (auto simp: walk_def)
qed

lemma pos_le_refl [simp]: "pos_le p p"
  by (simp add: pos_le_def)

lemma pos_le_trans: "pos_le p q \<Longrightarrow> pos_le q r \<Longrightarrow> pos_le p r"
  by (auto simp: pos_le_def)

lemma pos_le_walk: "pos_le p (walk p cs)"
proof (induction cs arbitrary: p)
  case Nil
  show ?case by (simp add: walk_def)
next
  case (Cons c cs)
  have "pos_le p (step_pos p c)" by (simp add: pos_le_def step_pos_def)
  moreover have "pos_le (step_pos p c) (walk (step_pos p c) cs)" by (rule Cons.IH)
  ultimately show ?case by (auto simp: walk_def intro: pos_le_trans)
qed

lemma advanced_pos_le: "advanced s s' \<Longrightarrow> pos_le (stream_pos s) (stream_pos s')"
  by (simp add: advanced_def pos_le_walk)

lemma stream_next_Inr:
  "stream_next s = Inr (c, s') \<Longrightarrow>
     advanced s s' \<and> s_idx s' = Suc (s_idx s) \<and> s_idx s < length (s_text s) \<and>
     c = s_text s ! s_idx s"
  by (auto simp: stream_next_def advanced_def stream_pos_def Let_def span_def walk_def
      step_pos_def take_Suc_conv_app_nth split: if_splits)

lemma stream_next_Inl:
  "stream_next s = Inl (e, s') \<Longrightarrow> e = StopIteration \<and> s' = s \<and> length (s_text s) \<le> s_idx s"
  by (auto simp: stream_next_def Let_def split: if_splits)

lemma steps_next [simp]: "steps s (stream_next s)"
  by (cases "stream_next s")
     (auto simp: steps_def dest: stream_next_Inr stream_next_Inl)

lemma steps_Inr [simp]: "steps s (Inr (v, s')) = advanced s s'"
  by (simp add: steps_def)

lemma steps_rbind:
  assumes "steps s r"
    and "\<And>v s1. r = Inr (v, s1) \<Longrightarrow> advanced s s1 \<Longrightarrow> steps s1 (f v s1)"
  shows "steps s (rbind r f)"
proof (cases r)
  case (Inl a)
  then show ?thesis using assms(1) by (auto simp: steps_def)
next
  case (Inr b)
  obtain v s1 where b: "b = (v, s1)" by (cases b)
  with Inr assms(1) have a: "advanced s s1" by simp
  from assms(2) [OF _ a] Inr b have "steps s1 (f v s1)" by simp
  with a have "steps s (f v s1)"
    by (auto simp: steps_def split: sum.splits intro: advanced_trans)
  with Inr b show ?thesis by simp
qed

lemma steps_next_times [simp]: "steps s (next_times n s)"
  by (induction n arbitrary: s) (auto intro!: steps_rbind)

lemma steps_parse_number_loop [simp]: "steps s (parse_number_loop s rv)"
proof (induction s rv rule: parse_number_loop.induct)
  case (1 s rv)
  show ?case
    by (subst parse_number_loop.simps) (auto intro!: steps_rbind "1.IH")
qed

lemma steps_parse_number [simp]: "steps s (parse_number s)"
  unfolding parse_number_def
proof (rule steps_rbind)
  show "steps s (parse_number_loop s [])" by simp
next
  fix rv s1
  show "steps s1 (case py_int rv of Inl e \<Rightarrow> Inl (e, s1) | Inr n \<Rightarrow> Inr (n, s1))"
    by (simp add: py_int_def steps_def)
qed

lemma steps_parse_till_closing_brace_loop [simp]:
  "steps s (parse_till_closing_brace_loop s rv n)"
proof (induction s rv n rule: parse_till_closing_brace_loop.induct)
  case (1 s rv n)
  show ?case
    by (subst parse_till_closing_brace_loop.simps)
       (auto simp: Let_def intro!: steps_rbind "1.IH")
qed

lemma steps_parse_till_closing_brace [simp]: "steps s (parse_till_closing_brace s)"
  by (simp add: parse_till_closing_brace_def)

lemma steps_skip_escaped [simp]: "steps s (skip_escaped chars s rv escaped)"
  by (induction chars arbitrary: s rv escaped) (auto intro!: steps_rbind)

lemma skip_escaped_idx:
  "skip_escaped chars s rv esc = Inr ((rv1, esc1), s1) \<Longrightarrow> esc1 \<Longrightarrow>
     esc \<or> s_idx s < s_idx s1"
proof (induction chars arbitrary: s rv esc)
  case Nil
  then show ?case by simp
next
  case (Cons char chars)
  show ?case
  proof (cases "EscapeCharToken_starts_here s [char]")
    case False
    with Cons.prems Cons.IH [of s rv esc] show ?thesis by simp
  next
    case True
    with Cons.prems obtain a s' b s'' where
      n1: "stream_next s = Inr (a, s')" and n2: "stream_next s' = Inr (b, s'')"
      and r: "skip_escaped chars s'' (rv @ [a, b]) True = Inr ((rv1, esc1), s1)"
      by (auto simp: rbind_def split: sum.splits)
    from steps_skip_escaped [of s'' chars "rv @ ([a] @ [b])" True] r
    have "s_idx s'' \<le> s_idx s1" by (simp add: advanced_def)
    with stream_next_Inr [OF n1] stream_next_Inr [OF n2] show ?thesis by simp
  qed
qed

lemma skip_escaped_facts:
  "skip_escaped chars s rv esc = Inr ((rv1, esc1), s1) \<Longrightarrow>
     advanced s s1 \<and> (esc1 \<longrightarrow> esc \<or> s_idx s < s_idx s1)"
  using steps_skip_escaped [of s chars rv esc] skip_escaped_idx [of chars s rv esc rv1 esc1 s1]
  by auto

function parse_till_unescaped_char_loop ::
  "stream \<Rightarrow> string \<Rightarrow> string \<Rightarrow> (string \<times> char) result" where
  "parse_till_unescaped_char_loop s chars rv =
     rbind (skip_escaped chars s rv False) (\<lambda>p s1.
       case p of (rv1, escaped) \<Rightarrow>
         if \<not> escaped then
           rbind (stream_next s1) (\<lambda>char s2.
             if py_in [char] chars then Inr ((rv1, char), s2)
             else parse_till_unescaped_char_loop s2 chars (rv1 @ [char]))
         else parse_till_unescaped_char_loop s1 chars rv1)"
  by pat_completeness auto
termination
  apply (relation "measure (\<lambda>(s, chars, rv). length (s_text s) - s_idx s)")
    apply simp
   apply (auto dest!: skip_escaped_facts stream_next_Inr simp: advanced_def)
  done

declare parse_till_unescaped_char_loop.simps [simp del]

definition parse_till_unescaped_char :: "stream \<Rightarrow> string \<Rightarrow> (string \<times> char) result" where
  "parse_till_unescaped_char s chars = parse_till_unescaped_char_loop s chars []"

lemma steps_parse_till_unescaped_char_loop [simp]:
  "steps s (parse_till_unescaped_char_loop s chars rv)"
proof (induction s chars rv rule: parse_till_unescaped_char_loop.induct)
  case (1 s chars rv)
  show ?case
  proof (subst parse_till_unescaped_char_loop.simps, rule steps_rbind)
    show "steps s (skip_escaped chars s rv False)" by simp
  next
    fix v s1
    assume sk: "skip_escaped chars s rv False = Inr (v, s1)"
    obtain rv1 escaped where v: "v = (rv1, escaped)" by (cases v)
    show "steps s1 (case v of (rv1, escaped) \<Rightarrow>
              if \<not> escaped then
                rbind (stream_next s1) (\<lambda>char s2.
                  if py_in [char] chars then Inr ((rv1, char), s2)
                  else parse_till_unescaped_char_loop s2 chars (rv1 @ [char]))
              else parse_till_unescaped_char_loop s1 chars rv1)"
    proof (cases escaped)
      case True
      with "1.IH"(2) [OF sk v [symmetric]] v show ?thesis by simp
    next
      case False
      have "steps s1 (rbind (stream_next s1) (\<lambda>char s2.
                  if py_in [char] chars then Inr ((rv1, char), s2)
                  else parse_till_unescaped_char_loop s2 chars (rv1 @ [char])))"
      proof (rule steps_rbind)
        show "steps s1 (stream_next s1)" by simp
      next
        fix char s2
        assume nx: "stream_next s1 = Inr (char, s2)"
        show "steps s2 (if py_in [char] chars then Inr ((rv1, char), s2)
                  else parse_till_unescaped_char_loop s2 chars (rv1 @ [char]))"
          using "1.IH"(1) [OF sk v [symmetric] _ nx] False by auto
      qed
      with False v show ?thesis by simp
    qed
  qed
qed

lemma steps_parse_till_unescaped_char [simp]:
  "steps s (parse_till_unescaped_char s chars)"
  by (simp add: parse_till_unescaped_char_def)


subsection \<open>Regular expressions and string methods used by the token classes\<close>

text \<open>
  The character classes \<^verbatim>\<open>\d\<close> and \<^verbatim>\<open>\s\<close> of a unicode pattern, on the code
  points below 256, and the pieces the \<^verbatim>\<open>CHECK\<close> patterns are made of. Every
  pattern is anchored and matched with \<^verbatim>\<open>match\<close>, so it describes a prefix; the
  character that follows \<^verbatim>\<open>\d+\<close> in a pattern is never a digit, so the greedy run
  of digits is the only way to match. On this range \<^verbatim>\<open>\d\<close> has the ten characters
  of \<^verbatim>\<open>string.digits\<close> and no other; the decimal digits of other scripts, which
  \<^verbatim>\<open>\d\<close> matches as well and \<^verbatim>\<open>string.digits\<close> does not contain, lie beyond
  code point 255 and are not characters of this model.
\<close>

definition re_digit :: "char \<Rightarrow> bool" where
  "re_digit c = (c \<in> set ''0123456789'')"

definition re_space :: "char \<Rightarrow> bool" where
  "re_space c = (c \<in> set [CHR 0x09, CHR 0x0A, CHR 0x0B, CHR 0x0C, CHR 0x0D,
                            CHR 0x1C, CHR 0x1D, CHR 0x1E, CHR 0x1F, CHR 0x20,
                            CHR 0x85, CHR 0xA0])"

definition re_literal :: "string \<Rightarrow> string \<Rightarrow> string option" where
  "re_literal lit cs =
     (if take (length lit) cs = lit then Some (drop (length lit) cs) else None)"

definition re_digits :: "string \<Rightarrow> string option" where
  "re_digits cs =
     (if takeWhile re_digit cs = [] then None else Some (dropWhile re_digit cs))"

definition re_class :: "(char \<Rightarrow> bool) \<Rightarrow> string \<Rightarrow> bool" where
  "re_class P cs = (case cs of [] \<Rightarrow> False | c # _ \<Rightarrow> P c)"

text \<open>\<^verbatim>\<open>TabStopToken.CHECK = re.compile(r'^\${\d+[:}]')\<close>\<close>

definition TabStopToken_CHECK :: "string \<Rightarrow> bool" where
  "TabStopToken_CHECK cs =
     (case re_literal ''${'' cs of
        None \<Rightarrow> False
      | Some r \<Rightarrow>
          (case re_digits r of
             None \<Rightarrow> False
           | Some r1 \<Rightarrow> re_class (\<lambda>c. c \<in> set '':}'') r1))"

text \<open>\<^verbatim>\<open>VisualToken.CHECK = re.compile(r"^\${VISUAL[:}/]")\<close>\<close>

definition VisualToken_CHECK :: "string \<Rightarrow> bool" where
  "VisualToken_CHECK cs =
     (case re_literal ''${VISUAL'' cs of
        None \<Rightarrow> False
      | Some r \<Rightarrow> re_class (\<lambda>c. c \<in> set '':}/'') r)"

text \<open>\<^verbatim>\<open>TransformationToken.CHECK = re.compile(r'^\${\d+\/')\<close>\<close>

definition TransformationToken_CHECK :: "string \<Rightarrow> bool" where
  "TransformationToken_CHECK cs =
     (case re_literal ''${'' cs of
        None \<Rightarrow> False
      | Some r \<Rightarrow>
          (case re_digits r of
             None \<Rightarrow> False
           | Some r1 \<Rightarrow> re_class (\<lambda>c. c = CHR ''/'') r1))"

text \<open>\<^verbatim>\<open>MirrorToken.CHECK = re.compile(r'^\$\d+')\<close>\<close>

definition MirrorToken_CHECK :: "string \<Rightarrow> bool" where
  "MirrorToken_CHECK cs =
     (case re_literal ''$'' cs of
        None \<Rightarrow> False
      | Some r \<Rightarrow> re_digits r \<noteq> None)"

text \<open>\<^verbatim>\<open>PythonCodeToken.CHECK = re.compile(r'^`!p\s')\<close>\<close>

definition PythonCodeToken_CHECK :: "string \<Rightarrow> bool" where
  "PythonCodeToken_CHECK cs =
     (case re_literal ''`!p'' cs of
        None \<Rightarrow> False
      | Some r \<Rightarrow> re_class re_space r)"

text \<open>\<^verbatim>\<open>VimLCodeToken.CHECK = re.compile(r'^`!v\s')\<close>\<close>

definition VimLCodeToken_CHECK :: "string \<Rightarrow> bool" where
  "VimLCodeToken_CHECK cs =
     (case re_literal ''`!v'' cs of
        None \<Rightarrow> False
      | Some r \<Rightarrow> re_class re_space r)"

text \<open>
  \<^verbatim>\<open>str.splitlines()\<close>: the line boundaries below 256, the pair carriage return,
  newline counting as one; no empty last line after a final boundary.
\<close>

definition line_boundary :: "char \<Rightarrow> bool" where
  "line_boundary c = (c \<in> set [CHR 0x0A, CHR 0x0D, CHR 0x0B, CHR 0x0C,
                                 CHR 0x1C, CHR 0x1D, CHR 0x1E, CHR 0x85])"

fun splitlines_from :: "string \<Rightarrow> string \<Rightarrow> string list" where
  "splitlines_from cur [] = (if cur = [] then [] else [cur])"
| "splitlines_from cur [c] = (if line_boundary c then [cur] else [cur @ [c]])"
| "splitlines_from cur (c # d # cs) =
     (if c = CHR 0x0D \<and> d = CHR 0x0A then cur # splitlines_from [] cs
      else if line_boundary c then cur # splitlines_from [] (d # cs)
      else splitlines_from (cur @ [c]) (d # cs))"

definition splitlines :: "string \<Rightarrow> string list" where
  "splitlines code = splitlines_from [] code"

text \<open>\<^verbatim>\<open>sep.join(xs)\<close>\<close>

fun str_join :: "string \<Rightarrow> string list \<Rightarrow> string" where
  "str_join sep [] = []"
| "str_join sep [x] = x"
| "str_join sep (x # y # ys) = x @ sep @ str_join sep (y # ys)"

subsection \<open>Tokens\<close>

text \<open>
  The classes of the module, and the attributes a \<^verbatim>\<open>_parse\<close> sets on its token. A
  token has \<^verbatim>\<open>initial_text\<close>, \<^verbatim>\<open>start\<close> and \<^verbatim>\<open>end\<close> (set by
  \<^verbatim>\<open>Token.__init__\<close>) and the attributes of its class; \<^verbatim>\<open>None\<close> for a field
  of a Visual token is the value None of an option.
\<close>

datatype token_class =
    EscapeCharToken | VisualToken | TransformationToken | TabStopToken
  | MirrorToken | PythonCodeToken | VimLCodeToken | ShellCodeToken

datatype token_attrs =
    TabStop int
  | Visual string "string option" "string option" "string option"
  | Transformation int string string string
  | Mirror int
  | EscapeChar
  | ShellCode string
  | PythonCode string string
  | VimLCode string
  | EndOfText

record token =
  initial_text :: string
  tok_start :: position
  tok_end :: position
  attrs :: token_attrs

text \<open>
  A \<^verbatim>\<open>_parse\<close> returns the value it leaves in \<^verbatim>\<open>self.initial_text\<close> (the empty
  text that \<^verbatim>\<open>Token.__init__\<close> put there, unless it assigns it) and the other
  attributes it sets.
\<close>

type_synonym parse_result = "(string \<times> token_attrs) result"

text \<open>\<^verbatim>\<open>Token.__init__\<close>\<close>

definition Token_init ::
  "(stream \<Rightarrow> string \<Rightarrow> parse_result) \<Rightarrow> stream \<Rightarrow> string \<Rightarrow> token result" where
  "Token_init parse gen indent =
     (let start = stream_pos gen
      in rbind (parse gen indent) (\<lambda>p gen1.
           Inr (\<lparr>initial_text = fst p, tok_start = start, tok_end = stream_pos gen1,
                 attrs = snd p\<rparr>, gen1)))"

text \<open>
  \<^verbatim>\<open>Token._parse\<close> does nothing; \<^verbatim>\<open>EndOfTextToken\<close>, the one class that inherits
  it, has no attribute of its own.
\<close>

definition Token_parse :: "stream \<Rightarrow> string \<Rightarrow> parse_result" where
  "Token_parse s indent = Inr (([], EndOfText), s)"

text \<open>\<^verbatim>\<open>TabStopToken\<close>\<close>

definition TabStopToken_starts_here :: "stream \<Rightarrow> bool" where
  "TabStopToken_starts_here s =
     (case peek s 10 of None \<Rightarrow> False | Some cs \<Rightarrow> TabStopToken_CHECK cs)"

definition TabStopToken_parse :: "stream \<Rightarrow> string \<Rightarrow> parse_result" where
  "TabStopToken_parse s indent =
     rbind (stream_next s) (\<lambda>_ s.
     rbind (stream_next s) (\<lambda>_ s.
     rbind (parse_number s) (\<lambda>number s.
     rbind (if peek s 1 = Some '':'' then next_times 1 s else Inr ((), s)) (\<lambda>_ s.
     rbind (parse_till_closing_brace s) (\<lambda>text s.
       Inr ((text, TabStop number), s))))))"

text \<open>
  The three scans \<^verbatim>\<open>search\<close>, \<^verbatim>\<open>replace\<close>, \<^verbatim>\<open>options\<close>, the same three
  statements in \<^verbatim>\<open>VisualToken._parse\<close> (inside its \<^verbatim>\<open>try\<close>) and in
  \<^verbatim>\<open>TransformationToken._parse\<close>.
\<close>

definition parse_transformation :: "stream \<Rightarrow> (string \<times> string \<times> string) result" where
  "parse_transformation s =
     rbind (parse_till_unescaped_char s ''/'') (\<lambda>p s.
     rbind (parse_till_unescaped_char s ''/'') (\<lambda>q s.
     rbind (parse_till_closing_brace s) (\<lambda>options s.
       Inr ((fst p, fst q, options), s))))"

text \<open>\<^verbatim>\<open>VisualToken\<close>\<close>

definition VisualToken_starts_here :: "stream \<Rightarrow> bool" where
  "VisualToken_starts_here s =
     (case peek s 10 of None \<Rightarrow> False | Some cs \<Rightarrow> VisualToken_CHECK cs)"

definition malformed_transformation :: exn where
  "malformed_transformation =
     RuntimeError ''Invalid ${VISUAL} transformation! Forgot to escape a '/'?''"

definition VisualToken_parse :: "stream \<Rightarrow> string \<Rightarrow> parse_result" where
  "VisualToken_parse s indent =
     rbind (next_times 8 s) (\<lambda>_ s.
     rbind (if peek s 1 = Some '':'' then next_times 1 s else Inr ((), s)) (\<lambda>_ s.
     rbind (parse_till_unescaped_char s ''/}'') (\<lambda>p s.
       let alternative_text = unescape (fst p); char = snd p
       in if char = CHR ''/'' then
            (case parse_transformation s of
               Inl (e, s1) \<Rightarrow>
                 if e = StopIteration then Inl (malformed_transformation, s1)
                 else Inl (e, s1)
             | Inr (t, s1) \<Rightarrow>
                 Inr (([], Visual alternative_text (Some (fst t)) (Some (fst (snd t)))
                                 (Some (snd (snd t)))), s1))
          else Inr (([], Visual alternative_text None None None), s))))"

text \<open>\<^verbatim>\<open>TransformationToken\<close>\<close>

definition TransformationToken_starts_here :: "stream \<Rightarrow> bool" where
  "TransformationToken_starts_here s =
     (case peek s 10 of None \<Rightarrow> False | Some cs \<Rightarrow> TransformationToken_CHECK cs)"

definition TransformationToken_parse :: "stream \<Rightarrow> string \<Rightarrow> parse_result" where
  "TransformationToken_parse s indent =
     rbind (stream_next s) (\<lambda>_ s.
     rbind (stream_next s) (\<lambda>_ s.
     rbind (parse_number s) (\<lambda>number s.
     rbind (stream_next s) (\<lambda>_ s.
     rbind (parse_transformation s) (\<lambda>t s.
       Inr (([], Transformation number (fst t) (fst (snd t)) (snd (snd t))), s))))))"

text \<open>\<^verbatim>\<open>MirrorToken\<close>\<close>

definition MirrorToken_starts_here :: "stream \<Rightarrow> bool" where
  "MirrorToken_starts_here s =
     (case peek s 10 of None \<Rightarrow> False | Some cs \<Rightarrow> MirrorToken_CHECK cs)"

definition MirrorToken_parse :: "stream \<Rightarrow> string \<Rightarrow> parse_result" where
  "MirrorToken_parse s indent =
     rbind (stream_next s) (\<lambda>_ s.
     rbind (parse_number s) (\<lambda>number s.
       Inr (([], Mirror number), s)))"

text \<open>\<^verbatim>\<open>EscapeCharToken._parse\<close>; its \<^verbatim>\<open>starts_here\<close> is with the scanners above.\<close>

definition EscapeCharToken_parse :: "stream \<Rightarrow> string \<Rightarrow> parse_result" where
  "EscapeCharToken_parse s indent =
     rbind (stream_next s) (\<lambda>_ s.
     rbind (stream_next s) (\<lambda>c s.
       Inr (([c], EscapeChar), s)))"

text \<open>\<^verbatim>\<open>ShellCodeToken\<close>\<close>

definition ShellCodeToken_starts_here :: "stream \<Rightarrow> bool" where
  "ShellCodeToken_starts_here s = (peek s 1 = Some ''`'')"

definition ShellCodeToken_parse :: "stream \<Rightarrow> string \<Rightarrow> parse_result" where
  "ShellCodeToken_parse s indent =
     rbind (stream_next s) (\<lambda>_ s.
     rbind (parse_till_unescaped_char s ''`'') (\<lambda>p s.
       Inr (([], ShellCode (fst p)), s)))"

text \<open>
  \<^verbatim>\<open>PythonCodeToken\<close>. Its \<^verbatim>\<open>_parse\<close> first scans the code (the prefix, one
  optional tab or space, the text up to the unescaped backtick) and then strips the indent.
  \<^verbatim>\<open>stream.peek() in '\t '\<close> raises TypeError when \<^verbatim>\<open>peek()\<close> is None;
  \<^verbatim>\<open>lines[0]\<close> raises IndexError when there is no line.
\<close>

definition PythonCodeToken_starts_here :: "stream \<Rightarrow> bool" where
  "PythonCodeToken_starts_here s =
     (case peek s 4 of None \<Rightarrow> False | Some cs \<Rightarrow> PythonCodeToken_CHECK cs)"

definition PythonCodeToken_scan :: "stream \<Rightarrow> string result" where
  "PythonCodeToken_scan s =
     rbind (next_times 3 s) (\<lambda>_ s.
     rbind (case peek s 1 of
              None \<Rightarrow> Inl (TypeError, s)
            | Some c \<Rightarrow>
                if py_in c [CHR 0x09, CHR '' ''] then next_times 1 s else Inr ((), s)) (\<lambda>_ s.
     rbind (parse_till_unescaped_char s ''`'') (\<lambda>p s.
       Inr (fst p, s))))"

definition strip_indent :: "string \<Rightarrow> string \<Rightarrow> exn + string" where
  "strip_indent indent code =
     (if length indent \<noteq> 0 then
        (let lines = splitlines code
         in case py_getitem lines 0 of
              Inl e \<Rightarrow> Inl e
            | Inr first \<Rightarrow>
                Inr ((first @ [CHR 0x0A]) @
                     str_join [CHR 0x0A] (map (\<lambda>l. drop (length indent) l) (drop 1 lines))))
      else Inr code)"

definition PythonCodeToken_parse :: "stream \<Rightarrow> string \<Rightarrow> parse_result" where
  "PythonCodeToken_parse s indent =
     rbind (PythonCodeToken_scan s) (\<lambda>code s.
       case strip_indent indent code of
         Inl e \<Rightarrow> Inl (e, s)
       | Inr c \<Rightarrow> Inr (([], PythonCode c indent), s))"

text \<open>\<^verbatim>\<open>VimLCodeToken\<close>\<close>

definition VimLCodeToken_starts_here :: "stream \<Rightarrow> bool" where
  "VimLCodeToken_starts_here s =
     (case peek s 4 of None \<Rightarrow> False | Some cs \<Rightarrow> VimLCodeToken_CHECK cs)"

definition VimLCodeToken_parse :: "stream \<Rightarrow> string \<Rightarrow> parse_result" where
  "VimLCodeToken_parse s indent =
     rbind (next_times 4 s) (\<lambda>_ s.
     rbind (parse_till_unescaped_char s ''`'') (\<lambda>p s.
       Inr (([], VimLCode (fst p)), s)))"

subsection \<open>The driver\<close>

text \<open>The calls \<^verbatim>\<open>token.starts_here(stream)\<close> and \<^verbatim>\<open>token(stream, indent)\<close>.\<close>

fun starts_here :: "token_class \<Rightarrow> stream \<Rightarrow> bool" where
  "starts_here EscapeCharToken s = EscapeCharToken_starts_here s escapable"
| "starts_here VisualToken s = VisualToken_starts_here s"
| "starts_here TransformationToken s = TransformationToken_starts_here s"
| "starts_here TabStopToken s = TabStopToken_starts_here s"
| "starts_here MirrorToken s = MirrorToken_starts_here s"
| "starts_here PythonCodeToken s = PythonCodeToken_starts_here s"
| "starts_here VimLCodeToken s = VimLCodeToken_starts_here s"
| "starts_here ShellCodeToken s = ShellCodeToken_starts_here s"

fun token_parse :: "token_class \<Rightarrow> stream \<Rightarrow> string \<Rightarrow> parse_result" where
  "token_parse EscapeCharToken = EscapeCharToken_parse"
| "token_parse VisualToken = VisualToken_parse"
| "token_parse TransformationToken = TransformationToken_parse"
| "token_parse TabStopToken = TabStopToken_parse"
| "token_parse MirrorToken = MirrorToken_parse"
| "token_parse PythonCodeToken = PythonCodeToken_parse"
| "token_parse VimLCodeToken = VimLCodeToken_parse"
| "token_parse ShellCodeToken = ShellCodeToken_parse"

definition ALLOWED_TOKENS :: "token_class list" where
  "ALLOWED_TOKENS =
     [EscapeCharToken, VisualToken, TransformationToken, TabStopToken,
      MirrorToken, PythonCodeToken, VimLCodeToken, ShellCodeToken]"

text \<open>
  The \<^verbatim>\<open>for token in __ALLOWED_TOKENS\<close> loop: the token of the first class that starts
  here (\<^verbatim>\<open>done_something\<close> is then True), or None when the loop ends with
  \<^verbatim>\<open>done_something\<close> still False.
\<close>

fun try_tokens :: "token_class list \<Rightarrow> stream \<Rightarrow> string \<Rightarrow> token option result" where
  "try_tokens [] s indent = Inr (None, s)"
| "try_tokens (token # tokens) s indent =
     (if starts_here token s then
        rbind (Token_init (token_parse token) s indent) (\<lambda>tok s1. Inr (Some tok, s1))
      else try_tokens tokens s indent)"

text \<open>What the token classes do to the iterator.\<close>

lemma steps_optional_next [simp]:
  "steps s (if b then next_times n s else Inr ((), s))"
  by simp

lemma steps_parse_transformation [simp]: "steps s (parse_transformation s)"
  unfolding parse_transformation_def
  by (intro steps_rbind) simp_all

lemma steps_visual_transformation:
  "steps s (case parse_transformation s of
              Inl (e, s1) \<Rightarrow>
                if e = StopIteration then Inl (malformed_transformation, s1)
                else Inl (e, s1)
            | Inr (t, s1) \<Rightarrow> Inr (f t, s1))"
  using steps_parse_transformation [of s]
  by (auto simp: steps_def malformed_transformation_def split: sum.splits)

lemma steps_TabStopToken_parse [simp]: "steps s (TabStopToken_parse s indent)"
  unfolding TabStopToken_parse_def
  by (intro steps_rbind) simp_all

lemma steps_VisualToken_parse [simp]: "steps s (VisualToken_parse s indent)"
  unfolding VisualToken_parse_def
  by (intro steps_rbind) (simp_all add: Let_def steps_visual_transformation)

lemma steps_TransformationToken_parse [simp]:
  "steps s (TransformationToken_parse s indent)"
  unfolding TransformationToken_parse_def
  by (intro steps_rbind) simp_all

lemma steps_MirrorToken_parse [simp]: "steps s (MirrorToken_parse s indent)"
  unfolding MirrorToken_parse_def
  by (intro steps_rbind) simp_all

lemma steps_EscapeCharToken_parse [simp]: "steps s (EscapeCharToken_parse s indent)"
  unfolding EscapeCharToken_parse_def
  by (intro steps_rbind) simp_all

lemma steps_ShellCodeToken_parse [simp]: "steps s (ShellCodeToken_parse s indent)"
  unfolding ShellCodeToken_parse_def
  by (intro steps_rbind) simp_all

lemma steps_VimLCodeToken_parse [simp]: "steps s (VimLCodeToken_parse s indent)"
  unfolding VimLCodeToken_parse_def
  by (intro steps_rbind) simp_all

lemma steps_optional_space:
  "steps s (case peek s 1 of
              None \<Rightarrow> Inl (TypeError, s)
            | Some c \<Rightarrow> if py_in c ws then next_times 1 s else Inr ((), s))"
proof (cases "peek s 1")
  case None
  then show ?thesis by (simp add: steps_def)
next
  case (Some c)
  have "steps s (if py_in c ws then next_times 1 s else Inr ((), s))"
    by (rule steps_optional_next)
  with Some show ?thesis by simp
qed

lemma steps_PythonCodeToken_scan [simp]: "steps s (PythonCodeToken_scan s)"
  unfolding PythonCodeToken_scan_def
  by (intro steps_rbind steps_optional_space) simp_all

lemma strip_indent_no_stop: "strip_indent indent code \<noteq> Inl StopIteration"
  by (auto simp: strip_indent_def py_getitem_def Let_def split: if_splits)

lemma steps_PythonCodeToken_parse [simp]: "steps s (PythonCodeToken_parse s indent)"
  unfolding PythonCodeToken_parse_def
proof (rule steps_rbind)
  show "steps s (PythonCodeToken_scan s)" by simp
next
  fix code s1
  show "steps s1 (case strip_indent indent code of
                    Inl e \<Rightarrow> Inl (e, s1)
                  | Inr c \<Rightarrow> Inr (([], PythonCode c indent), s1))"
    using strip_indent_no_stop [of indent code]
    by (cases "strip_indent indent code") (simp_all add: steps_def)
qed

lemma steps_token_parse [simp]: "steps s (token_parse cls s indent)"
  by (cases cls) simp_all

text \<open>A parse that returns has consumed at least one character.\<close>

lemma next_times_strict:
  "next_times n s = Inr (u, s1) \<Longrightarrow> 0 < n \<Longrightarrow> s_idx s < s_idx s1"
proof (cases n)
  case 0
  assume "0 < n"
  with 0 show ?thesis by simp
next
  case (Suc m)
  assume r: "next_times n s = Inr (u, s1)"
  with Suc obtain c s0 where n1: "stream_next s = Inr (c, s0)"
    and n2: "next_times m s0 = Inr (u, s1)"
    by (auto simp: rbind_def split: sum.splits)
  from steps_next_times [of s0 m] n2 have "s_idx s0 \<le> s_idx s1"
    by (simp add: advanced_def)
  with stream_next_Inr [OF n1] show ?thesis by simp
qed

lemma rbind_strict:
  assumes "rbind r f = Inr (v, s')"
    and "\<And>u s1. r = Inr (u, s1) \<Longrightarrow> s_idx s < s_idx s1"
    and "\<And>u s1. steps s1 (f u s1)"
  shows "s_idx s < s_idx s'"
proof -
  from assms(1) obtain u s1 where r: "r = Inr (u, s1)" and f: "f u s1 = Inr (v, s')"
    by (auto simp: rbind_def split: sum.splits)
  from assms(3) [of s1 u] f have "s_idx s1 \<le> s_idx s'" by (simp add: advanced_def)
  with assms(2) [OF r] show ?thesis by simp
qed

lemma stream_next_strict: "stream_next s = Inr (c, s1) \<Longrightarrow> s_idx s < s_idx s1"
  by (auto dest: stream_next_Inr)

lemma EscapeCharToken_parse_strict:
  "EscapeCharToken_parse s indent = Inr (v, s') \<Longrightarrow> s_idx s < s_idx s'"
  unfolding EscapeCharToken_parse_def
  apply (erule rbind_strict)
   apply (erule stream_next_strict)
  apply (intro steps_rbind)
   apply simp_all
  done

lemma VisualToken_parse_strict:
  "VisualToken_parse s indent = Inr (v, s') \<Longrightarrow> s_idx s < s_idx s'"
  unfolding VisualToken_parse_def
  apply (erule rbind_strict)
   apply (erule next_times_strict)
   apply simp
  apply (intro steps_rbind)
    apply (simp_all add: Let_def steps_visual_transformation)
  done

lemma TransformationToken_parse_strict:
  "TransformationToken_parse s indent = Inr (v, s') \<Longrightarrow> s_idx s < s_idx s'"
  unfolding TransformationToken_parse_def
  apply (erule rbind_strict)
   apply (erule stream_next_strict)
  apply (intro steps_rbind)
      apply simp_all
  done

lemma TabStopToken_parse_strict:
  "TabStopToken_parse s indent = Inr (v, s') \<Longrightarrow> s_idx s < s_idx s'"
  unfolding TabStopToken_parse_def
  apply (erule rbind_strict)
   apply (erule stream_next_strict)
  apply (intro steps_rbind)
      apply simp_all
  done

lemma MirrorToken_parse_strict:
  "MirrorToken_parse s indent = Inr (v, s') \<Longrightarrow> s_idx s < s_idx s'"
  unfolding MirrorToken_parse_def
  apply (erule rbind_strict)
   apply (erule stream_next_strict)
  apply (intro steps_rbind)
   apply simp_all
  done

lemma PythonCodeToken_scan_strict:
  "PythonCodeToken_scan s = Inr (v, s') \<Longrightarrow> s_idx s < s_idx s'"
  unfolding PythonCodeToken_scan_def
  apply (erule rbind_strict)
   apply (erule next_times_strict)
   apply simp
  apply (intro steps_rbind steps_optional_space)
   apply simp_all
  done

lemma PythonCodeToken_parse_strict:
  "PythonCodeToken_parse s indent = Inr (v, s') \<Longrightarrow> s_idx s < s_idx s'"
  by (auto simp: PythonCodeToken_parse_def rbind_def split: sum.splits
      dest: PythonCodeToken_scan_strict)

lemma VimLCodeToken_parse_strict:
  "VimLCodeToken_parse s indent = Inr (v, s') \<Longrightarrow> s_idx s < s_idx s'"
  unfolding VimLCodeToken_parse_def
  apply (erule rbind_strict)
   apply (erule next_times_strict)
   apply simp
  apply (intro steps_rbind)
   apply simp_all
  done

lemma ShellCodeToken_parse_strict:
  "ShellCodeToken_parse s indent = Inr (v, s') \<Longrightarrow> s_idx s < s_idx s'"
  unfolding ShellCodeToken_parse_def
  apply (erule rbind_strict)
   apply (erule stream_next_strict)
  apply (intro steps_rbind)
   apply simp_all
  done

lemma token_parse_strict:
  "token_parse cls s indent = Inr (v, s') \<Longrightarrow> s_idx s < s_idx s'"
  by (cases cls)
     (simp_all add: EscapeCharToken_parse_strict VisualToken_parse_strict
        TransformationToken_parse_strict TabStopToken_parse_strict
        MirrorToken_parse_strict PythonCodeToken_parse_strict
        VimLCodeToken_parse_strict ShellCodeToken_parse_strict)

lemma steps_Token_init [simp]:
  "steps s (parse s indent) \<Longrightarrow> steps s (Token_init parse s indent)"
  unfolding Token_init_def Let_def
  by (rule steps_rbind) simp_all

lemma steps_try_tokens [simp]: "steps s (try_tokens tokens s indent)"
  by (induction tokens) (auto intro!: steps_rbind)

lemma try_tokens_None: "try_tokens tokens s indent = Inr (None, s1) \<Longrightarrow> s1 = s"
  by (induction tokens) (auto simp: rbind_def split: if_splits sum.splits)

lemma try_tokens_strict:
  "try_tokens tokens s indent = Inr (Some tok, s1) \<Longrightarrow> s_idx s < s_idx s1"
proof (induction tokens)
  case Nil
  then show ?case by simp
next
  case (Cons token tokens)
  show ?case
  proof (cases "starts_here token s")
    case False
    with Cons show ?thesis by simp
  next
    case True
    with Cons.prems obtain p where "token_parse token s indent = Inr (p, s1)"
      by (auto simp: Token_init_def Let_def rbind_def split: sum.splits)
    then show ?thesis by (rule token_parse_strict)
  qed
qed

lemma try_tokens_Some:
  "try_tokens tokens s indent = Inr (Some tok, s1) \<Longrightarrow>
     s_idx s < s_idx s1 \<and> advanced s s1"
  using steps_try_tokens [of s tokens indent] try_tokens_strict [of tokens s indent tok s1]
  by simp

text \<open>
  The driver. \<^verbatim>\<open>tokenize\<close> is a generator: what a caller gets are the tokens it
  yields, in order, and then either the end of the iteration (None) or the exception that
  leaves the generator. The loop below also records, with every step, the input that
  the step consumed: \<open>Yielded tok cs\<close> for a token that was yielded and the text
  \<open>cs\<close> its constructor consumed, \<open>Discarded c\<close> for the character consumed by the
  bare \<^verbatim>\<open>stream.next()\<close>, \<open>Abandoned cs\<close> for the text consumed by a constructor
  that raised, whose token therefore was never yielded. The record is not part of the
  source; the tokens of \<^verbatim>\<open>tokenize\<close> are the tokens of the \<open>Yielded\<close> events.
\<close>

datatype event = Yielded token string | Discarded char | Abandoned string

text \<open>
  An exception inside the \<^verbatim>\<open>try\<close>: \<^verbatim>\<open>except StopIteration\<close> yields the
  \<^verbatim>\<open>EndOfTextToken\<close> and the generator ends; any other exception leaves the generator.
\<close>

definition on_exception :: "exn \<Rightarrow> stream \<Rightarrow> string \<Rightarrow> event list \<times> exn option" where
  "on_exception e s indent =
     (if e = StopIteration then
        (case Token_init Token_parse s indent of
           Inl (e1, s1) \<Rightarrow> ([], Some e1)
         | Inr (tok, s1) \<Rightarrow> ([Yielded tok (span s s1)], None))
      else ([], Some e))"

function tokenize_loop :: "stream \<Rightarrow> string \<Rightarrow> event list \<times> exn option" where
  "tokenize_loop s indent =
     (case try_tokens ALLOWED_TOKENS s indent of
        Inl (e, s1) \<Rightarrow>
          (case on_exception e s1 indent of (evs, r) \<Rightarrow> (Abandoned (span s s1) # evs, r))
      | Inr (None, s1) \<Rightarrow>
          (case stream_next s1 of
             Inl (e, s2) \<Rightarrow> on_exception e s2 indent
           | Inr (c, s2) \<Rightarrow>
               (case tokenize_loop s2 indent of (evs, r) \<Rightarrow> (Discarded c # evs, r)))
      | Inr (Some tok, s1) \<Rightarrow>
          (case tokenize_loop s1 indent of (evs, r) \<Rightarrow> (Yielded tok (span s s1) # evs, r)))"
  by pat_completeness auto
termination
  apply (relation "measure (\<lambda>(s, indent). length (s_text s) - s_idx s)")
    apply simp
   apply (auto dest!: try_tokens_None try_tokens_Some stream_next_Inr simp: advanced_def)
  done

declare tokenize_loop.simps [simp del]

fun yielded :: "event \<Rightarrow> token list" where
  "yielded (Yielded tok cs) = [tok]"
| "yielded (Discarded c) = []"
| "yielded (Abandoned cs) = []"

definition tokens_of :: "event list \<Rightarrow> token list" where
  "tokens_of evs = concat (map yielded evs)"

text \<open>\<^verbatim>\<open>tokenize(text, indent, offset)\<close>\<close>

definition tokenize_events :: "string \<Rightarrow> string \<Rightarrow> position \<Rightarrow> event list \<times> exn option" where
  "tokenize_events text indent offset = tokenize_loop (TextIterator text offset) indent"

definition tokenize :: "string \<Rightarrow> string \<Rightarrow> position \<Rightarrow> token list \<times> exn option" where
  "tokenize text indent offset =
     (case tokenize_events text indent offset of (evs, r) \<Rightarrow> (tokens_of evs, r))"

subsection \<open>Basic facts about the iterator\<close>

lemma stream_peek_total: "stream_peek s n = Inr (peek s n, s)"
  by (simp add: stream_peek_def peek_def py_getitem_def)

lemma peek_many: "1 < n \<Longrightarrow> peek s n = Some (take (nat n) (upcoming s))"
  by (simp add: peek_def stream_peek_def upcoming_def)

lemma peek_one:
  "peek s 1 = (case upcoming s of [] \<Rightarrow> None | c # _ \<Rightarrow> Some [c])"
  by (cases "s_idx s < length (s_text s)")
     (simp_all add: peek_def stream_peek_def py_getitem_def upcoming_def
        Cons_nth_drop_Suc [symmetric])

lemma stream_next_upcoming:
  "stream_next s =
     (case upcoming s of
        [] \<Rightarrow> Inl (StopIteration, s)
      | c # _ \<Rightarrow>
          Inr (c, if c = CHR 0x0A
                  then s\<lparr>s_line := s_line s + 1, s_col := 0, s_idx := s_idx s + 1\<rparr>
                  else s\<lparr>s_col := s_col s + 1, s_idx := s_idx s + 1\<rparr>))"
  by (cases "s_idx s < length (s_text s)")
     (simp_all add: stream_next_def upcoming_def Let_def Cons_nth_drop_Suc [symmetric])

subsection \<open>Lines\<close>

lemma splitlines_from_plain:
  "\<forall>c\<in>set cs. \<not> line_boundary c \<Longrightarrow>
     splitlines_from cur cs = (if cur @ cs = [] then [] else [cur @ cs])"
proof (induction cur cs rule: splitlines_from.induct)
  case (1 cur)
  show ?case by simp
next
  case (2 cur c)
  then show ?case by simp
next
  case (3 cur c d cs)
  from "3.prems" have c: "\<not> line_boundary c" and rest: "\<forall>x\<in>set (d # cs). \<not> line_boundary x"
    by simp_all
  from c have "c \<noteq> CHR 0x0D" by (auto simp: line_boundary_def)
  with c "3.IH"(3) rest show ?case by simp
qed

lemma splitlines_plain:
  "code \<noteq> [] \<Longrightarrow> \<forall>c\<in>set code. \<not> line_boundary c \<Longrightarrow> splitlines code = [code]"
  by (simp add: splitlines_def splitlines_from_plain)

lemma strip_indent_lines:
  "indent \<noteq> [] \<Longrightarrow> splitlines code = first # rest \<Longrightarrow>
     strip_indent indent code =
       Inr (first @ [CHR 0x0A] @ str_join [CHR 0x0A] (map (drop (length indent)) rest))"
  by (simp add: strip_indent_def py_getitem_def)

lemma strip_indent_empty [simp]: "strip_indent [] code = Inr code"
  by (simp add: strip_indent_def)

subsection \<open>One pass of the driver loop\<close>

text \<open>The token that \<^verbatim>\<open>EndOfTextToken(stream, indent)\<close> builds at a position.\<close>

definition end_of_text :: "position \<Rightarrow> token" where
  "end_of_text p = \<lparr>initial_text = [], tok_start = p, tok_end = p, attrs = EndOfText\<rparr>"

lemma span_same [simp]: "span s s = []"
  by (simp add: span_def)

lemma on_exception_stop [simp]:
  "on_exception StopIteration s indent = ([Yielded (end_of_text (stream_pos s)) []], None)"
  by (simp add: on_exception_def Token_init_def Token_parse_def end_of_text_def)

lemma on_exception_other [simp]:
  "e \<noteq> StopIteration \<Longrightarrow> on_exception e s indent = ([], Some e)"
  by (simp add: on_exception_def)

lemma loop_raise:
  "try_tokens ALLOWED_TOKENS s indent = Inl (e, s1) \<Longrightarrow>
     tokenize_loop s indent =
       (Abandoned (span s s1) # fst (on_exception e s1 indent), snd (on_exception e s1 indent))"
  by (subst tokenize_loop.simps) (simp split: prod.splits)

lemma loop_stop:
  "try_tokens ALLOWED_TOKENS s indent = Inr (None, s1) \<Longrightarrow> stream_next s1 = Inl (e, s2) \<Longrightarrow>
     tokenize_loop s indent = on_exception e s2 indent"
  by (subst tokenize_loop.simps) simp

lemma loop_discard:
  "try_tokens ALLOWED_TOKENS s indent = Inr (None, s1) \<Longrightarrow> stream_next s1 = Inr (c, s2) \<Longrightarrow>
     tokenize_loop s indent =
       (Discarded c # fst (tokenize_loop s2 indent), snd (tokenize_loop s2 indent))"
  by (subst tokenize_loop.simps) (simp split: prod.splits)

lemma loop_yield:
  "try_tokens ALLOWED_TOKENS s indent = Inr (Some tok, s1) \<Longrightarrow>
     tokenize_loop s indent =
       (Yielded tok (span s s1) # fst (tokenize_loop s1 indent), snd (tokenize_loop s1 indent))"
  by (subst tokenize_loop.simps) (simp split: prod.splits)

lemma tokenize_loop_cases [case_names raise stop discard yield]:
  assumes "\<And>s e s1. try_tokens ALLOWED_TOKENS s indent = Inl (e, s1) \<Longrightarrow> P s"
    and "\<And>s e s2. try_tokens ALLOWED_TOKENS s indent = Inr (None, s) \<Longrightarrow>
            stream_next s = Inl (e, s2) \<Longrightarrow> P s"
    and "\<And>s c s2. try_tokens ALLOWED_TOKENS s indent = Inr (None, s) \<Longrightarrow>
            stream_next s = Inr (c, s2) \<Longrightarrow> P s2 \<Longrightarrow> P s"
    and "\<And>s tok s1. try_tokens ALLOWED_TOKENS s indent = Inr (Some tok, s1) \<Longrightarrow>
            P s1 \<Longrightarrow> P s"
  shows "P s"
  using assms
proof (induction s indent rule: tokenize_loop.induct)
  case (1 s indent)
  note raise = "1.prems"(1) and stop = "1.prems"(2) and discard = "1.prems"(3)
    and yield = "1.prems"(4)
  show ?case
  proof (cases "try_tokens ALLOWED_TOKENS s indent")
    case (Inl a)
    then show ?thesis using raise [of s "fst a" "snd a"] by simp
  next
    case (Inr b)
    note tb = Inr
    obtain x s1 where b: "b = (x, s1)" by (cases b)
    show ?thesis
    proof (cases x)
      case None
      with Inr b have t: "try_tokens ALLOWED_TOKENS s indent = Inr (None, s1)" by simp
      from try_tokens_None [OF t] have s1: "s1 = s" .
      show ?thesis
      proof (cases "stream_next s1")
        case (Inl a)
        then show ?thesis using stop [of s "fst a" "snd a"] t s1 by simp
      next
        case (Inr d)
        obtain c s2 where d: "d = (c, s2)" by (cases d)
        have "P s2"
          by (rule "1.IH"(1) [OF tb b [symmetric] None Inr d [symmetric]])
             (fact raise stop discard yield)+
        with discard [of s c s2] t s1 Inr d show ?thesis by simp
      qed
    next
      case (Some tok)
      with Inr b have t: "try_tokens ALLOWED_TOKENS s indent = Inr (Some tok, s1)" by simp
      have "P s1"
        by (rule "1.IH"(2) [OF tb b [symmetric] Some]) (fact raise stop discard yield)+
      with yield [OF t] show ?thesis .
    qed
  qed
qed


subsection \<open>The tokens a constructor returns\<close>

lemma token_parse_attrs:
  "token_parse cls s indent = Inr (p, s') \<Longrightarrow> snd p \<noteq> EndOfText"
proof (cases cls)
  case EscapeCharToken
  assume "token_parse cls s indent = Inr (p, s')"
  with EscapeCharToken show ?thesis
    by (auto simp: EscapeCharToken_parse_def rbind_def split: sum.splits)
next
  case VisualToken
  assume "token_parse cls s indent = Inr (p, s')"
  with VisualToken show ?thesis
    by (auto simp: VisualToken_parse_def rbind_def Let_def split: sum.splits if_splits)
next
  case TransformationToken
  assume "token_parse cls s indent = Inr (p, s')"
  with TransformationToken show ?thesis
    by (auto simp: TransformationToken_parse_def rbind_def split: sum.splits)
next
  case TabStopToken
  assume "token_parse cls s indent = Inr (p, s')"
  with TabStopToken show ?thesis
    by (auto simp: TabStopToken_parse_def rbind_def split: sum.splits)
next
  case MirrorToken
  assume "token_parse cls s indent = Inr (p, s')"
  with MirrorToken show ?thesis
    by (auto simp: MirrorToken_parse_def rbind_def split: sum.splits)
next
  case PythonCodeToken
  assume "token_parse cls s indent = Inr (p, s')"
  with PythonCodeToken show ?thesis
    by (auto simp: PythonCodeToken_parse_def rbind_def split: sum.splits)
next
  case VimLCodeToken
  assume "token_parse cls s indent = Inr (p, s')"
  with VimLCodeToken show ?thesis
    by (auto simp: VimLCodeToken_parse_def rbind_def split: sum.splits)
next
  case ShellCodeToken
  assume "token_parse cls s indent = Inr (p, s')"
  with ShellCodeToken show ?thesis
    by (auto simp: ShellCodeToken_parse_def rbind_def split: sum.splits)
qed

lemma Token_init_Inr:
  "Token_init parse s indent = Inr (tok, s1) \<Longrightarrow>
     \<exists>p. parse s indent = Inr (p, s1) \<and>
         tok = \<lparr>initial_text = fst p, tok_start = stream_pos s, tok_end = stream_pos s1,
                attrs = snd p\<rparr>"
  by (auto simp: Token_init_def Let_def rbind_def split: sum.splits)

lemma try_tokens_token:
  "try_tokens tokens s indent = Inr (Some tok, s1) \<Longrightarrow>
     tok_start tok = stream_pos s \<and> tok_end tok = stream_pos s1 \<and> attrs tok \<noteq> EndOfText"
proof (induction tokens)
  case Nil
  then show ?case by simp
next
  case (Cons token tokens)
  show ?case
  proof (cases "starts_here token s")
    case False
    with Cons show ?thesis by simp
  next
    case True
    with Cons.prems have "Token_init (token_parse token) s indent = Inr (tok, s1)"
      by (auto simp: rbind_def split: sum.splits)
    from Token_init_Inr [OF this] obtain p where
      p: "token_parse token s indent = Inr (p, s1)"
      and tok: "tok = \<lparr>initial_text = fst p, tok_start = stream_pos s,
                       tok_end = stream_pos s1, attrs = snd p\<rparr>"
      by blast
    from token_parse_attrs [OF p] tok show ?thesis by simp
  qed
qed

subsection \<open>What the driver consumes and yields\<close>

text \<open>The input an event stands for.\<close>

fun consumed :: "event \<Rightarrow> string" where
  "consumed (Yielded tok cs) = cs"
| "consumed (Discarded c) = [c]"
| "consumed (Abandoned cs) = cs"

lemma on_exception_None:
  "snd (on_exception e s indent) = None \<Longrightarrow> e = StopIteration"
  by (cases "e = StopIteration") simp_all

lemma span_rest:
  "advanced s s1 \<Longrightarrow> span s s1 @ drop (s_idx s1) (s_text s) = drop (s_idx s) (s_text s)"
proof -
  assume a: "advanced s s1"
  then have le: "s_idx s \<le> s_idx s1" by (simp add: advanced_def)
  have "drop (s_idx s1) (s_text s) = drop (s_idx s1 - s_idx s) (drop (s_idx s) (s_text s))"
    using le by simp
  then show ?thesis unfolding span_def by (simp only: append_take_drop_id)
qed

lemma loop_consumed:
  "s_idx s \<le> length (s_text s) \<Longrightarrow> snd (tokenize_loop s indent) = None \<Longrightarrow>
     concat (map consumed (fst (tokenize_loop s indent))) = drop (s_idx s) (s_text s)"
proof (induction s rule: tokenize_loop_cases [where indent = indent])
  case (raise s e s1)
  from raise.prems(2) loop_raise [OF raise.hyps] have "snd (on_exception e s1 indent) = None"
    by simp
  then have e: "e = StopIteration" by (rule on_exception_None)
  from steps_try_tokens [of s ALLOWED_TOKENS indent] raise.hyps e
  have a: "advanced s s1" and full: "length (s_text s1) \<le> s_idx s1"
    by (simp_all add: steps_def)
  from a full raise.prems(1) have "drop (s_idx s1) (s_text s) = []"
    by (simp add: advanced_def)
  with span_rest [OF a] have "span s s1 = drop (s_idx s) (s_text s)" by simp
  with e loop_raise [OF raise.hyps] show ?case by simp
next
  case (stop s e s2)
  from stream_next_Inl [OF stop.hyps(2)] loop_stop [OF stop.hyps]
  show ?case by simp
next
  case (discard s c s2)
  note nx = stream_next_Inr [OF discard.hyps(2)]
  from nx have a: "advanced s s2" by simp
  from discard.prems(2) loop_discard [OF discard.hyps(1,2)]
  have r: "snd (tokenize_loop s2 indent) = None" by simp
  from nx a have "s_idx s2 \<le> length (s_text s2)" by (simp add: advanced_def)
  from discard.IH [OF this r] a
  have "concat (map consumed (fst (tokenize_loop s2 indent))) = drop (Suc (s_idx s)) (s_text s)"
    using nx by (simp add: advanced_def)
  with nx loop_discard [OF discard.hyps(1,2)] show ?case
    by (simp add: Cons_nth_drop_Suc)
next
  case (yield s tok s1)
  from try_tokens_Some [OF yield.hyps] have a: "advanced s s1" by simp
  from yield.prems(2) loop_yield [OF yield.hyps]
  have r: "snd (tokenize_loop s1 indent) = None" by simp
  from a yield.prems(1) have "s_idx s1 \<le> length (s_text s1)" by (simp add: advanced_def)
  from yield.IH [OF this r] a
  have "concat (map consumed (fst (tokenize_loop s1 indent))) = drop (s_idx s1) (s_text s)"
    by (simp add: advanced_def)
  with span_rest [OF a] loop_yield [OF yield.hyps] show ?case by simp
qed

lemma tokens_of_simps [simp]:
  "tokens_of [] = []"
  "tokens_of (Yielded tok cs # evs) = tok # tokens_of evs"
  "tokens_of (Discarded c # evs) = tokens_of evs"
  "tokens_of (Abandoned cs # evs) = tokens_of evs"
  "tokens_of (evs @ evs') = tokens_of evs @ tokens_of evs'"
  by (simp_all add: tokens_of_def)

lemma on_exception_cases:
  "on_exception e s indent = ([Yielded (end_of_text (stream_pos s)) []], None) \<and> e = StopIteration
   \<or> on_exception e s indent = ([], Some e) \<and> e \<noteq> StopIteration"
  by (cases "e = StopIteration") simp_all

lemma loop_ordered:
  "sorted_wrt (\<lambda>a b. pos_le (tok_end a) (tok_start b)) (tokens_of (fst (tokenize_loop s indent))) \<and>
   (\<forall>t\<in>set (tokens_of (fst (tokenize_loop s indent))).
      pos_le (stream_pos s) (tok_start t) \<and> pos_le (tok_start t) (tok_end t))"
proof (induction s rule: tokenize_loop_cases [where indent = indent])
  case (raise s e s1)
  from steps_try_tokens [of s ALLOWED_TOKENS indent] raise.hyps
  have "advanced s s1" by (simp add: steps_def)
  then have "pos_le (stream_pos s) (stream_pos s1)" by (rule advanced_pos_le)
  with on_exception_cases [of e s1 indent] loop_raise [OF raise.hyps]
  show ?case by (auto simp: end_of_text_def)
next
  case (stop s e s2)
  from stream_next_Inl [OF stop.hyps(2)] loop_stop [OF stop.hyps]
  show ?case by (simp add: end_of_text_def)
next
  case (discard s c s2)
  from stream_next_Inr [OF discard.hyps(2)]
  have "pos_le (stream_pos s) (stream_pos s2)" by (simp add: advanced_pos_le)
  with discard.IH loop_discard [OF discard.hyps(1,2)] show ?case
    by (auto intro: pos_le_trans)
next
  case (yield s tok s1)
  from try_tokens_Some [OF yield.hyps]
  have le: "pos_le (stream_pos s) (stream_pos s1)" by (simp add: advanced_pos_le)
  note tok = try_tokens_token [OF yield.hyps]
  from yield.IH le tok loop_yield [OF yield.hyps] show ?case
    by (auto intro: pos_le_trans)
qed

lemma loop_walk:
  "Yielded tok cs \<in> set (fst (tokenize_loop s indent)) \<Longrightarrow>
     tok_end tok = walk (tok_start tok) cs"
proof (induction s rule: tokenize_loop_cases [where indent = indent])
  case (raise s e s1)
  with on_exception_cases [of e s1 indent] loop_raise [OF raise.hyps]
  show ?case by (auto simp: end_of_text_def walk_def)
next
  case (stop s e s2)
  with stream_next_Inl [OF stop.hyps(2)] loop_stop [OF stop.hyps]
  show ?case by (auto simp: end_of_text_def walk_def)
next
  case (discard s c s2)
  with loop_discard [OF discard.hyps(1,2)] show ?case by auto
next
  case (yield s tok' s1)
  from try_tokens_Some [OF yield.hyps]
  have "stream_pos s1 = walk (stream_pos s) (span s s1)" by (simp add: advanced_def)
  with try_tokens_token [OF yield.hyps]
  have "tok_end tok' = walk (tok_start tok') (span s s1)" by simp
  with yield.IH yield.prems loop_yield [OF yield.hyps] show ?case by auto
qed

text \<open>
  The shape of a run: steps that yield a token other than EndOfText or discard a
  character, then at most one abandoned parse, then EndOfText if the abandoned parse
  raised StopIteration (or there was none), and the exception otherwise.
\<close>

fun plain_event :: "event \<Rightarrow> bool" where
  "plain_event (Yielded tok cs) = (attrs tok \<noteq> EndOfText)"
| "plain_event (Discarded c) = True"
| "plain_event (Abandoned cs) = False"

lemma loop_shape:
  "\<exists>pre fin. list_all plain_event pre \<and>
     (fin = [] \<or> (\<exists>cs. fin = [Abandoned cs])) \<and>
     (case snd (tokenize_loop s indent) of
        None \<Rightarrow> \<exists>p. fst (tokenize_loop s indent) = pre @ fin @ [Yielded (end_of_text p) []]
      | Some e \<Rightarrow> fst (tokenize_loop s indent) = pre @ fin \<and> fin \<noteq> [] \<and> e \<noteq> StopIteration)"
proof (induction s rule: tokenize_loop_cases [where indent = indent])
  case (raise s e s1)
  show ?case
    using on_exception_cases [of e s1 indent] loop_raise [OF raise.hyps]
    by (intro exI [of _ "[]"] exI [of _ "[Abandoned (span s s1)]"]) auto
next
  case (stop s e s2)
  show ?case
    using stream_next_Inl [OF stop.hyps(2)] loop_stop [OF stop.hyps]
    by (intro exI [of _ "[]"]) auto
next
  case (discard s c s2)
  then obtain pre fin where pre: "list_all plain_event pre"
    and fin: "fin = [] \<or> (\<exists>cs. fin = [Abandoned cs])"
    and sh: "case snd (tokenize_loop s2 indent) of
        None \<Rightarrow> \<exists>p. fst (tokenize_loop s2 indent) = pre @ fin @ [Yielded (end_of_text p) []]
      | Some e \<Rightarrow> fst (tokenize_loop s2 indent) = pre @ fin \<and> fin \<noteq> [] \<and> e \<noteq> StopIteration"
    by blast
  show ?case
    using pre fin sh loop_discard [OF discard.hyps(1,2)]
    by (intro exI [of _ "Discarded c # pre"] exI [of _ fin]) (auto split: option.splits)
next
  case (yield s tok s1)
  then obtain pre fin where pre: "list_all plain_event pre"
    and fin: "fin = [] \<or> (\<exists>cs. fin = [Abandoned cs])"
    and sh: "case snd (tokenize_loop s1 indent) of
        None \<Rightarrow> \<exists>p. fst (tokenize_loop s1 indent) = pre @ fin @ [Yielded (end_of_text p) []]
      | Some e \<Rightarrow> fst (tokenize_loop s1 indent) = pre @ fin \<and> fin \<noteq> [] \<and> e \<noteq> StopIteration"
    by blast
  show ?case
    using pre fin sh loop_yield [OF yield.hyps] try_tokens_token [OF yield.hyps]
    by (intro exI [of _ "Yielded tok (span s s1) # pre"] exI [of _ fin])
       (auto split: option.splits)
qed

lemma plain_tokens:
  "list_all plain_event pre \<Longrightarrow> \<forall>t\<in>set (tokens_of pre). attrs t \<noteq> EndOfText"
proof (induction pre)
  case Nil
  show ?case by simp
next
  case (Cons ev pre)
  then show ?case by (cases ev) auto
qed

subsection \<open>Where the driver can be\<close>

text \<open>
  \<open>driver_reaches indent s evs s'\<close>: started at the top of the \<^verbatim>\<open>while\<close> loop with
  the iterator \<open>s\<close>, the driver is at the top of the loop again with the iterator \<open>s'\<close>,
  after the events \<open>evs\<close>.
\<close>

inductive driver_reaches :: "string \<Rightarrow> stream \<Rightarrow> event list \<Rightarrow> stream \<Rightarrow> bool"
  for indent :: string where
  here: "driver_reaches indent s [] s"
| yielded: "try_tokens ALLOWED_TOKENS s indent = Inr (Some tok, s1) \<Longrightarrow>
     driver_reaches indent s1 evs s' \<Longrightarrow>
     driver_reaches indent s (Yielded tok (span s s1) # evs) s'"
| discarded: "try_tokens ALLOWED_TOKENS s indent = Inr (None, s1) \<Longrightarrow>
     stream_next s1 = Inr (c, s2) \<Longrightarrow>
     driver_reaches indent s2 evs s' \<Longrightarrow>
     driver_reaches indent s (Discarded c # evs) s'"

lemma reaches_loop:
  "driver_reaches indent s evs s' \<Longrightarrow>
     tokenize_loop s indent = (evs @ fst (tokenize_loop s' indent), snd (tokenize_loop s' indent))"
proof (induction rule: driver_reaches.induct)
  case (here s)
  show ?case by simp
next
  case (yielded s tok s1 evs s')
  with loop_yield [OF yielded.hyps(1)] show ?case by simp
next
  case (discarded s s1 c s2 evs s')
  with loop_discard [OF discarded.hyps(1,2)] show ?case by simp
qed

lemma reaches_plain: "driver_reaches indent s evs s' \<Longrightarrow> list_all plain_event evs"
proof (induction rule: driver_reaches.induct)
  case (here s)
  show ?case by simp
next
  case (yielded s tok s1 evs s')
  with try_tokens_token [OF yielded.hyps(1)] show ?case by simp
next
  case (discarded s s1 c s2 evs s')
  then show ?case by simp
qed


subsection \<open>Which class starts\<close>

lemma peek_10: "peek s 10 = Some (take 10 (upcoming s))"
  by (simp add: peek_many)

lemma peek_2: "peek s 2 = Some (take 2 (upcoming s))"
  by (simp add: peek_many)

lemma escape_starts_backslash:
  "EscapeCharToken_starts_here s chars \<Longrightarrow> \<exists>r. upcoming s = CHR 0x5C # r"
  by (cases "upcoming s") (auto simp: EscapeCharToken_starts_here_def peek_2)

lemma re_literal_prefix:
  "re_literal lit (take n u) = Some r \<Longrightarrow> length lit \<le> n \<Longrightarrow> \<exists>r'. u = lit @ r'"
proof -
  assume "re_literal lit (take n u) = Some r" and n: "length lit \<le> n"
  then have "take (length lit) (take n u) = lit"
    by (simp add: re_literal_def split: if_splits)
  with n have "take (length lit) u = lit" by (simp add: min_def)
  then have "u = lit @ drop (length lit) u" by (metis append_take_drop_id)
  then show ?thesis ..
qed

lemma visual_starts:
  "VisualToken_starts_here s \<Longrightarrow> \<exists>r. upcoming s = ''${VISUAL'' @ r"
  by (auto simp: VisualToken_starts_here_def VisualToken_CHECK_def peek_10
      split: option.splits dest!: re_literal_prefix)

lemma visual_not_escape:
  "VisualToken_starts_here s \<Longrightarrow> \<not> EscapeCharToken_starts_here s chars"
  by (auto dest!: visual_starts escape_starts_backslash)

lemma transformation_starts:
  "TransformationToken_starts_here s \<Longrightarrow>
     \<exists>r. upcoming s = ''${'' @ r \<and> re_digits (take 8 r) \<noteq> None"
proof -
  assume t: "TransformationToken_starts_here s"
  then obtain r0 where r0: "re_literal ''${'' (take 10 (upcoming s)) = Some r0"
    by (auto simp: TransformationToken_starts_here_def TransformationToken_CHECK_def peek_10
        split: option.splits)
  from re_literal_prefix [OF this] obtain r where u: "upcoming s = ''${'' @ r" by auto
  with r0 have "r0 = take 8 r" by (simp add: re_literal_def)
  with t r0 have "re_digits (take 8 r) \<noteq> None"
    by (auto simp: TransformationToken_starts_here_def TransformationToken_CHECK_def peek_10
        split: option.splits)
  with u show ?thesis by blast
qed

lemma transformation_not_escape:
  "TransformationToken_starts_here s \<Longrightarrow> \<not> EscapeCharToken_starts_here s chars"
  by (auto dest!: transformation_starts escape_starts_backslash)

lemma transformation_not_visual:
  "TransformationToken_starts_here s \<Longrightarrow> \<not> VisualToken_starts_here s"
  by (auto dest!: transformation_starts visual_starts simp: re_digits_def re_digit_def)

lemma try_tokens_first:
  "(\<forall>c\<in>set before. \<not> starts_here c s) \<Longrightarrow> starts_here cls s \<Longrightarrow>
     try_tokens (before @ cls # after) s indent =
       rbind (Token_init (token_parse cls) s indent) (\<lambda>tok s1. Inr (Some tok, s1))"
  by (induction before) simp_all

lemma try_tokens_no_match:
  "(\<forall>c\<in>set tokens. \<not> starts_here c s) \<Longrightarrow> try_tokens tokens s indent = Inr (None, s)"
  by (induction tokens) simp_all

lemma Token_init_Inl:
  "parse s indent = Inl (e, s1) \<Longrightarrow> Token_init parse s indent = Inl (e, s1)"
  by (simp add: Token_init_def)

subsection \<open>Claims about the iterator\<close>

text \<open>
  C10: for every character that \<^verbatim>\<open>next()\<close> consumes, the line number is incremented
  and the column reset to 0 exactly when that character is the newline; every other
  character, the carriage return included, adds 1 to the column and leaves the line as
  it is. The character consumed is the one at the index, and the index moves by one.
\<close>

theorem C10_next_position:
  "stream_next s = Inr (c, s') \<Longrightarrow>
     c = s_text s ! s_idx s \<and> s_idx s' = s_idx s + 1 \<and> s_text s' = s_text s \<and>
     (c = CHR 0x0A \<longrightarrow> s_line s' = s_line s + 1 \<and> s_col s' = 0) \<and>
     (c \<noteq> CHR 0x0A \<longrightarrow> s_line s' = s_line s \<and> s_col s' = s_col s + 1)"
  by (auto simp: stream_next_def Let_def split: if_splits)

theorem C10_next_position_witness:
  "stream_next \<lparr>s_text = [CHR 0x0D, CHR 0x0A], s_line = 3, s_col = 4, s_idx = 0\<rparr> =
     Inr (CHR 0x0D, \<lparr>s_text = [CHR 0x0D, CHR 0x0A], s_line = 3, s_col = 5, s_idx = 1\<rparr>) \<and>
   stream_next \<lparr>s_text = [CHR 0x0D, CHR 0x0A], s_line = 3, s_col = 5, s_idx = 1\<rparr> =
     Inr (CHR 0x0A, \<lparr>s_text = [CHR 0x0D, CHR 0x0A], s_line = 4, s_col = 0, s_idx = 2\<rparr>) \<and>
   s_line \<lparr>s_text = [CHR 0x0D, CHR 0x0A], s_line = 3, s_col = 5, s_idx = 1\<rparr> = 3 \<and>
   s_col \<lparr>s_text = [CHR 0x0D, CHR 0x0A], s_line = 3, s_col = 5, s_idx = 1\<rparr> = 4 + 1"
proof -
  have a: "stream_next \<lparr>s_text = [CHR 0x0D, CHR 0x0A], s_line = 3, s_col = 4, s_idx = 0\<rparr> =
     Inr (CHR 0x0D, \<lparr>s_text = [CHR 0x0D, CHR 0x0A], s_line = 3, s_col = 5, s_idx = 1\<rparr>)"
    by (simp add: stream_next_def Let_def)
  have b: "stream_next \<lparr>s_text = [CHR 0x0D, CHR 0x0A], s_line = 3, s_col = 5, s_idx = 1\<rparr> =
     Inr (CHR 0x0A, \<lparr>s_text = [CHR 0x0D, CHR 0x0A], s_line = 4, s_col = 0, s_idx = 2\<rparr>)"
    by (simp add: stream_next_def Let_def)
  from C10_next_position [OF a] a b show ?thesis by simp
qed

text \<open>
  C7: for every iterator state and every \<open>n \<ge> 1\<close>, \<^verbatim>\<open>peek(n)\<close> raises nothing and
  leaves the iterator as it was; what it returns are the upcoming characters, at most
  \<open>n\<close> of them, and fewer than \<open>n\<close> (for \<open>n = 1\<close>: None) only when fewer remain.
\<close>

theorem C7_peek_total:
  "1 \<le> n \<Longrightarrow>
     \<exists>v. stream_peek s n = Inr (v, s) \<and>
         (case v of None \<Rightarrow> [] | Some cs \<Rightarrow> cs) = take (nat n) (drop (s_idx s) (s_text s)) \<and>
         (v = None \<longleftrightarrow> n = 1 \<and> length (s_text s) \<le> s_idx s)"
proof (cases "1 < n")
  case True
  then show ?thesis by (simp add: stream_peek_def)
next
  case False
  assume "1 \<le> n"
  with False have n: "n = 1" by simp
  show ?thesis
  proof (cases "s_idx s < length (s_text s)")
    case True
    then show ?thesis
      using n by (simp add: stream_peek_def py_getitem_def take_Suc_conv_app_nth
          Cons_nth_drop_Suc [symmetric])
  next
    case False
    then show ?thesis using n by (simp add: stream_peek_def py_getitem_def)
  qed
qed

theorem C7_peek_total_witness:
  "(1::int) \<le> 3 \<and>
   stream_peek \<lparr>s_text = ''ab$1'', s_line = 0, s_col = 2, s_idx = 2\<rparr> 3 =
     Inr (Some ''$1'', \<lparr>s_text = ''ab$1'', s_line = 0, s_col = 2, s_idx = 2\<rparr>) \<and>
   stream_peek \<lparr>s_text = ''ab$1'', s_line = 0, s_col = 4, s_idx = 4\<rparr> 1 =
     Inr (None, \<lparr>s_text = ''ab$1'', s_line = 0, s_col = 4, s_idx = 4\<rparr>)"
proof -
  have h: "(1::int) \<le> 3" by simp
  from C7_peek_total [OF h, of "\<lparr>s_text = ''ab$1'', s_line = 0, s_col = 2, s_idx = 2\<rparr>"]
  show ?thesis by (simp add: stream_peek_def py_getitem_def)
qed

subsection \<open>Claims about the Python code token\<close>

text \<open>
  What \<^verbatim>\<open>splitlines\<close> gives for a code of one line: the code is not empty, and it is
  the line, free of line boundaries, followed by nothing, by one line boundary, or by the
  pair carriage return, newline.
\<close>

lemma splitlines_from_empty: "splitlines_from cur cs = [] \<longleftrightarrow> cur = [] \<and> cs = []"
  by (induction cur cs rule: splitlines_from.induct) auto

lemma splitlines_from_terminated:
  "\<forall>c\<in>set p. \<not> line_boundary c \<Longrightarrow>
   e = [] \<and> cur @ p \<noteq> [] \<or> e = [CHR 0x0D, CHR 0x0A] \<or> (\<exists>b. e = [b] \<and> line_boundary b) \<Longrightarrow>
     splitlines_from cur (p @ e) = [cur @ p]"
proof (induction p arbitrary: cur)
  case Nil
  then show ?case by auto
next
  case (Cons c p)
  from Cons.prems(1) have c: "\<not> line_boundary c" and p: "\<forall>x\<in>set p. \<not> line_boundary x"
    by simp_all
  from c have cr: "c \<noteq> CHR 0x0D" by (auto simp: line_boundary_def)
  from Cons.prems(2)
  have e: "e = [] \<and> (cur @ [c]) @ p \<noteq> [] \<or> e = [CHR 0x0D, CHR 0x0A] \<or>
      (\<exists>b. e = [b] \<and> line_boundary b)"
    by auto
  show ?case
  proof (cases "p @ e")
    case Nil
    with c show ?thesis by simp
  next
    case (Cons d r)
    with c cr have "splitlines_from cur ((c # p) @ e) = splitlines_from (cur @ [c]) (p @ e)"
      by simp
    with Cons.IH [OF p e] show ?thesis by simp
  qed
qed

lemma splitlines_from_single:
  "splitlines_from cur cs = [l] \<Longrightarrow>
     \<exists>p e. cs = p @ e \<and> l = cur @ p \<and> (\<forall>c\<in>set p. \<not> line_boundary c) \<and> cur @ cs \<noteq> [] \<and>
       (e = [] \<or> e = [CHR 0x0D, CHR 0x0A] \<or> (\<exists>b. e = [b] \<and> line_boundary b))"
proof (induction cur cs rule: splitlines_from.induct)
  case (1 cur)
  then show ?case by (auto split: if_splits)
next
  case (2 cur c)
  show ?case
  proof (cases "line_boundary c")
    case True
    with 2 show ?thesis by (intro exI [of _ "[]"] exI [of _ "[c]"]) auto
  next
    case False
    with 2 show ?thesis by (intro exI [of _ "[c]"] exI [of _ "[]"]) auto
  qed
next
  case (3 cur c d cs)
  show ?case
  proof (cases "c = CHR 0x0D \<and> d = CHR 0x0A")
    case True
    with "3.prems" have "l = cur" "splitlines_from [] cs = []" by simp_all
    then have "l = cur" "cs = []" by (simp_all add: splitlines_from_empty)
    with True show ?thesis by (intro exI [of _ "[]"] exI [of _ "[c, d]"]) simp
  next
    case nocrlf: False
    show ?thesis
    proof (cases "line_boundary c")
      case True
      with nocrlf "3.prems" have "splitlines_from [] (d # cs) = []" by auto
      then show ?thesis by (simp add: splitlines_from_empty)
    next
      case False
      with nocrlf "3.prems" have "splitlines_from (cur @ [c]) (d # cs) = [l]" by auto
      from "3.IH"(3) [OF nocrlf False this] obtain p e where
        "d # cs = p @ e" "l = (cur @ [c]) @ p" "\<forall>c\<in>set p. \<not> line_boundary c"
        "e = [] \<or> e = [CHR 0x0D, CHR 0x0A] \<or> (\<exists>b. e = [b] \<and> line_boundary b)"
        by blast
      with False show ?thesis
        by (intro exI [of _ "c # p"] exI [of _ e]) simp
    qed
  qed
qed

lemma splitlines_single_iff:
  "splitlines code = [l] \<longleftrightarrow>
     code \<noteq> [] \<and> (\<forall>c\<in>set l. \<not> line_boundary c) \<and>
     (code = l \<or> code = l @ [CHR 0x0D, CHR 0x0A] \<or> (\<exists>b. line_boundary b \<and> code = l @ [b]))"
proof
  assume "splitlines code = [l]"
  from splitlines_from_single [of "[]" code l] this show
    "code \<noteq> [] \<and> (\<forall>c\<in>set l. \<not> line_boundary c) \<and>
     (code = l \<or> code = l @ [CHR 0x0D, CHR 0x0A] \<or> (\<exists>b. line_boundary b \<and> code = l @ [b]))"
    by (auto simp: splitlines_def)
next
  assume h: "code \<noteq> [] \<and> (\<forall>c\<in>set l. \<not> line_boundary c) \<and>
     (code = l \<or> code = l @ [CHR 0x0D, CHR 0x0A] \<or> (\<exists>b. line_boundary b \<and> code = l @ [b]))"
  then obtain e where c: "code = l @ e"
    and e: "e = [] \<and> [] @ l \<noteq> [] \<or> e = [CHR 0x0D, CHR 0x0A] \<or> (\<exists>b. e = [b] \<and> line_boundary b)"
    by auto
  from h have "\<forall>c\<in>set l. \<not> line_boundary c" by simp
  from splitlines_from_terminated [OF this e] c show "splitlines code = [l]"
    by (simp add: splitlines_def)
qed

text \<open>
  C9 does not hold as worded: the code scanned from \<^verbatim>\<open>`!p x\<close>, a newline and the
  closing backtick is \<^verbatim>\<open>x\<close> followed by the newline, a single line. With the indent
  of two spaces the \<^verbatim>\<open>code\<close> of the token is \<^verbatim>\<open>x\<close> and a newline, as claimed;
  with the empty indent it is the same text, not the line \<^verbatim>\<open>x\<close> without a newline
  after it.
\<close>

theorem C9_counterexample:
  "PythonCodeToken_scan (TextIterator (''`!p x'' @ [CHR 0x0A] @ ''`'') \<lparr>line = 0, col = 0\<rparr>) =
     Inr (''x'' @ [CHR 0x0A],
          \<lparr>s_text = ''`!p x'' @ [CHR 0x0A] @ ''`'', s_line = 1, s_col = 1, s_idx = 7\<rparr>) \<and>
   splitlines (''x'' @ [CHR 0x0A]) = [''x''] \<and>
   PythonCodeToken_parse (TextIterator (''`!p x'' @ [CHR 0x0A] @ ''`'') \<lparr>line = 0, col = 0\<rparr>)
     ''  '' =
     Inr (([], PythonCode (''x'' @ [CHR 0x0A]) ''  ''),
          \<lparr>s_text = ''`!p x'' @ [CHR 0x0A] @ ''`'', s_line = 1, s_col = 1, s_idx = 7\<rparr>) \<and>
   PythonCodeToken_parse (TextIterator (''`!p x'' @ [CHR 0x0A] @ ''`'') \<lparr>line = 0, col = 0\<rparr>)
     [] =
     Inr (([], PythonCode (''x'' @ [CHR 0x0A]) []),
          \<lparr>s_text = ''`!p x'' @ [CHR 0x0A] @ ''`'', s_line = 1, s_col = 1, s_idx = 7\<rparr>) \<and>
   ''x'' @ [CHR 0x0A] \<noteq> ''x''"
  by code_simp

text \<open>
  C9, amended: the scanned code consists of a single line exactly when it is not empty
  and is a text \<open>l\<close> without line boundary (the line) followed by nothing, by one line
  boundary, or by a carriage return and a newline. For such a code and a non-empty indent
  the \<^verbatim>\<open>code\<close> of the token is the line followed by a newline, which stands in
  place of the boundary that ended the scanned code, if any. With an empty indent the
  \<^verbatim>\<open>code\<close> is the scanned code as it is: the line without a newline after it exactly
  when the scanned code holds no line boundary, and otherwise the line followed by the
  boundary that ended it.
\<close>

theorem C9_single_line_newline:
  "PythonCodeToken_scan s = Inr (code, s') \<Longrightarrow>
     (splitlines code = [l] \<longleftrightarrow>
        code \<noteq> [] \<and> (\<forall>c\<in>set l. \<not> line_boundary c) \<and>
        (code = l \<or> code = l @ [CHR 0x0D, CHR 0x0A] \<or>
         (\<exists>b. line_boundary b \<and> code = l @ [b]))) \<and>
     (splitlines code = [l] \<and> indent \<noteq> [] \<longrightarrow>
        PythonCodeToken_parse s indent = Inr (([], PythonCode (l @ [CHR 0x0A]) indent), s')) \<and>
     PythonCodeToken_parse s [] = Inr (([], PythonCode code []), s') \<and>
     (splitlines code = [l] \<longrightarrow> (code = l \<longleftrightarrow> (\<forall>c\<in>set code. \<not> line_boundary c)))"
proof (intro conjI impI)
  assume sc: "PythonCodeToken_scan s = Inr (code, s')"
  show "splitlines code = [l] \<longleftrightarrow>
        code \<noteq> [] \<and> (\<forall>c\<in>set l. \<not> line_boundary c) \<and>
        (code = l \<or> code = l @ [CHR 0x0D, CHR 0x0A] \<or>
         (\<exists>b. line_boundary b \<and> code = l @ [b]))"
    by (rule splitlines_single_iff)
  show "PythonCodeToken_parse s [] = Inr (([], PythonCode code []), s')"
    using sc by (simp add: PythonCodeToken_parse_def)
  {
    assume "splitlines code = [l] \<and> indent \<noteq> []"
    then show "PythonCodeToken_parse s indent =
        Inr (([], PythonCode (l @ [CHR 0x0A]) indent), s')"
      using sc strip_indent_lines [of indent code l "[]"]
      by (simp add: PythonCodeToken_parse_def)
  }
  {
    assume "splitlines code = [l]"
    then have h: "code \<noteq> [] \<and> (\<forall>c\<in>set l. \<not> line_boundary c) \<and>
        (code = l \<or> code = l @ [CHR 0x0D, CHR 0x0A] \<or>
         (\<exists>b. line_boundary b \<and> code = l @ [b]))"
      by (rule iffD1 [OF splitlines_single_iff])
    show "code = l \<longleftrightarrow> (\<forall>c\<in>set code. \<not> line_boundary c)"
    proof
      assume "code = l"
      with h show "\<forall>c\<in>set code. \<not> line_boundary c" by simp
    next
      assume plain: "\<forall>c\<in>set code. \<not> line_boundary c"
      have cr: "line_boundary (CHR 0x0D)" by (simp add: line_boundary_def)
      from h plain cr show "code = l" by auto
    qed
  }
qed

theorem C9_single_line_newline_witness:
  "PythonCodeToken_scan (TextIterator (''`!p y'' @ [CHR 0x0D] @ ''`'') \<lparr>line = 3, col = 4\<rparr>) =
     Inr (''y'' @ [CHR 0x0D],
          \<lparr>s_text = ''`!p y'' @ [CHR 0x0D] @ ''`'', s_line = 3, s_col = 11, s_idx = 7\<rparr>) \<and>
   splitlines (''y'' @ [CHR 0x0D]) = [''y''] \<and>
   PythonCodeToken_parse (TextIterator (''`!p y'' @ [CHR 0x0D] @ ''`'') \<lparr>line = 3, col = 4\<rparr>)
     ''  '' =
     Inr (([], PythonCode (''y'' @ [CHR 0x0A]) ''  ''),
          \<lparr>s_text = ''`!p y'' @ [CHR 0x0D] @ ''`'', s_line = 3, s_col = 11, s_idx = 7\<rparr>) \<and>
   PythonCodeToken_parse (TextIterator (''`!p y'' @ [CHR 0x0D] @ ''`'') \<lparr>line = 3, col = 4\<rparr>)
     [] =
     Inr (([], PythonCode (''y'' @ [CHR 0x0D]) []),
          \<lparr>s_text = ''`!p y'' @ [CHR 0x0D] @ ''`'', s_line = 3, s_col = 11, s_idx = 7\<rparr>) \<and>
   line_boundary (CHR 0x0D) \<and> ''y'' @ [CHR 0x0D] \<noteq> ''y''"
proof -
  let ?s0 = "TextIterator (''`!p y'' @ [CHR 0x0D] @ ''`'') \<lparr>line = 3, col = 4\<rparr>"
  let ?s7 = "\<lparr>s_text = ''`!p y'' @ [CHR 0x0D] @ ''`'', s_line = 3, s_col = 11, s_idx = 7\<rparr>"
  have sc: "PythonCodeToken_scan ?s0 = Inr (''y'' @ [CHR 0x0D], ?s7)" by code_simp
  have b: "line_boundary (CHR 0x0D)" by (simp add: line_boundary_def)
  have y: "\<not> line_boundary CHR ''y''" by (simp add: line_boundary_def)
  note c9 = C9_single_line_newline [OF sc, of "''y''" "''  ''"]
  from c9 b y have l: "splitlines (''y'' @ [CHR 0x0D]) = [''y'']" by auto
  with c9 sc b show ?thesis by simp
qed

text \<open>
  C6 as the spec words it: the lines of the scanned code, the first unchanged and every
  later one without its first \<^verbatim>\<open>len(indent)\<close> characters, rejoined with newlines.
\<close>

definition spec_strip_indent :: "string \<Rightarrow> string \<Rightarrow> string" where
  "spec_strip_indent indent code =
     (if indent \<noteq> [] then
        (case splitlines code of
           [] \<Rightarrow> []
         | first # rest \<Rightarrow> str_join [CHR 0x0A] (first # map (drop (length indent)) rest))
      else code)"

text \<open>
  C6 does not hold as worded: the code \<^verbatim>\<open>x\<close>, a single line, parsed with the indent
  of two spaces becomes \<^verbatim>\<open>x\<close> followed by a newline, where rejoining its one line
  gives \<^verbatim>\<open>x\<close>.
\<close>

theorem C6_counterexample:
  "PythonCodeToken_scan (TextIterator ''`!p x`'' \<lparr>line = 0, col = 0\<rparr>) =
     Inr (''x'', \<lparr>s_text = ''`!p x`'', s_line = 0, s_col = 6, s_idx = 6\<rparr>) \<and>
   PythonCodeToken_parse (TextIterator ''`!p x`'' \<lparr>line = 0, col = 0\<rparr>) ''  '' =
     Inr (([], PythonCode [CHR ''x'', CHR 0x0A] ''  ''),
          \<lparr>s_text = ''`!p x`'', s_line = 0, s_col = 6, s_idx = 6\<rparr>) \<and>
   spec_strip_indent ''  '' ''x'' = ''x'' \<and>
   [CHR ''x'', CHR 0x0A] \<noteq> spec_strip_indent ''  '' ''x''"
  by code_simp

text \<open>
  C6, amended: for a PythonCode token parsed with a non-empty indent whose scanned code
  has at least one line, the \<^verbatim>\<open>code\<close> is the first line unchanged, a newline, and
  the later lines, each without its first \<^verbatim>\<open>len(indent)\<close> characters (without all of
  them when it is shorter), joined by newlines. For two or more lines this is the lines
  rejoined with newlines, as the spec words it; for a single line it is the line and
  a newline. With an empty indent the scanned code is kept as it is.
\<close>

theorem C6_strip_indent:
  "PythonCodeToken_scan s = Inr (code, s') \<Longrightarrow>
     (indent \<noteq> [] \<and> splitlines code = first # rest \<longrightarrow>
        PythonCodeToken_parse s indent =
          Inr (([], PythonCode (first @ [CHR 0x0A] @
                  str_join [CHR 0x0A] (map (drop (length indent)) rest)) indent), s') \<and>
        (\<forall>l\<in>set rest. length (drop (length indent) l) = length l - length indent) \<and>
        (rest \<noteq> [] \<longrightarrow>
           PythonCodeToken_parse s indent =
             Inr (([], PythonCode (spec_strip_indent indent code) indent), s'))) \<and>
     PythonCodeToken_parse s [] = Inr (([], PythonCode code []), s')"
proof (intro conjI impI)
  assume sc: "PythonCodeToken_scan s = Inr (code, s')"
  show "PythonCodeToken_parse s [] = Inr (([], PythonCode code []), s')"
    using sc by (simp add: PythonCodeToken_parse_def)
  {
    assume h: "indent \<noteq> [] \<and> splitlines code = first # rest"
    with sc strip_indent_lines [of indent code first rest]
    show p: "PythonCodeToken_parse s indent =
          Inr (([], PythonCode (first @ [CHR 0x0A] @
                  str_join [CHR 0x0A] (map (drop (length indent)) rest)) indent), s')"
      by (simp add: PythonCodeToken_parse_def)
    show "\<forall>l\<in>set rest. length (drop (length indent) l) = length l - length indent"
      by simp
    {
      assume "rest \<noteq> []"
      then obtain r rs where "rest = r # rs" by (cases rest) auto
      with h have "spec_strip_indent indent code =
          first @ [CHR 0x0A] @ str_join [CHR 0x0A] (map (drop (length indent)) rest)"
        by (simp add: spec_strip_indent_def)
      with p show "PythonCodeToken_parse s indent =
             Inr (([], PythonCode (spec_strip_indent indent code) indent), s')"
        by simp
    }
  }
qed

theorem C6_strip_indent_witness:
  "PythonCodeToken_scan
     (TextIterator (''`!p a'' @ [CHR 0x0A] @ ''  b'' @ [CHR 0x0A] @ '' `'') \<lparr>line = 0, col = 0\<rparr>) =
     Inr (''a'' @ [CHR 0x0A] @ ''  b'' @ [CHR 0x0A] @ '' '',
          \<lparr>s_text = ''`!p a'' @ [CHR 0x0A] @ ''  b'' @ [CHR 0x0A] @ '' `'',
             s_line = 2, s_col = 2, s_idx = 12\<rparr>) \<and>
   splitlines (''a'' @ [CHR 0x0A] @ ''  b'' @ [CHR 0x0A] @ '' '') = [''a'', ''  b'', '' ''] \<and>
   PythonCodeToken_parse
     (TextIterator (''`!p a'' @ [CHR 0x0A] @ ''  b'' @ [CHR 0x0A] @ '' `'') \<lparr>line = 0, col = 0\<rparr>)
     ''  '' =
     Inr (([], PythonCode (''a'' @ [CHR 0x0A] @ ''b'' @ [CHR 0x0A]) ''  ''),
          \<lparr>s_text = ''`!p a'' @ [CHR 0x0A] @ ''  b'' @ [CHR 0x0A] @ '' `'',
             s_line = 2, s_col = 2, s_idx = 12\<rparr>)"
proof -
  have sc: "PythonCodeToken_scan
     (TextIterator (''`!p a'' @ [CHR 0x0A] @ ''  b'' @ [CHR 0x0A] @ '' `'') \<lparr>line = 0, col = 0\<rparr>) =
     Inr (''a'' @ [CHR 0x0A] @ ''  b'' @ [CHR 0x0A] @ '' '',
          \<lparr>s_text = ''`!p a'' @ [CHR 0x0A] @ ''  b'' @ [CHR 0x0A] @ '' `'',
             s_line = 2, s_col = 2, s_idx = 12\<rparr>)"
    by code_simp
  have l: "splitlines (''a'' @ [CHR 0x0A] @ ''  b'' @ [CHR 0x0A] @ '' '') =
      [''a'', ''  b'', '' '']"
    by code_simp
  from C6_strip_indent [OF sc, of "''  ''" "''a''" "[''  b'', '' '']"] sc l
  show ?thesis by simp
qed

subsection \<open>Claims about the driver\<close>

definition count_EndOfText :: "token list \<Rightarrow> nat" where
  "count_EndOfText toks = length (filter (\<lambda>t. attrs t = EndOfText) toks)"

lemma count_EndOfText_none:
  "\<forall>t\<in>set toks. attrs t \<noteq> EndOfText \<Longrightarrow> count_EndOfText toks = 0"
  by (simp add: count_EndOfText_def)

lemma count_EndOfText_append [simp]:
  "count_EndOfText (xs @ ys) = count_EndOfText xs + count_EndOfText ys"
  by (simp add: count_EndOfText_def)

lemma count_EndOfText_end [simp]: "count_EndOfText [end_of_text p] = 1"
  by (simp add: count_EndOfText_def end_of_text_def)

lemma tokens_of_abandoned:
  "fin = [] \<or> (\<exists>cs. fin = [Abandoned cs]) \<Longrightarrow> tokens_of fin = []"
  by auto

text \<open>
  C3 does not hold for every input: on \<^verbatim>\<open>$1${VISUAL:x/y\<close> the generator yields the
  Mirror token and then raises the malformed-transformation error; no EndOfText token is
  produced.
\<close>

theorem C3_counterexample:
  "tokenize ''$1${VISUAL:x/y'' [] \<lparr>line = 0, col = 0\<rparr> =
     ([\<lparr>initial_text = [], tok_start = \<lparr>line = 0, col = 0\<rparr>,
        tok_end = \<lparr>line = 0, col = 2\<rparr>, attrs = Mirror 1\<rparr>],
      Some malformed_transformation) \<and>
   count_EndOfText (fst (tokenize ''$1${VISUAL:x/y'' [] \<lparr>line = 0, col = 0\<rparr>)) = 0"
  by code_simp

text \<open>
  C3, amended: for every text, indent and offset on which \<^verbatim>\<open>tokenize\<close> does not
  raise, the sequence it produces contains exactly one EndOfText token, and that token is
  its last element; when it raises the malformed-transformation error, the tokens it
  produced before contain no EndOfText token.
\<close>

theorem C3_one_EndOfText_last:
  "(snd (tokenize text indent offset) = None \<longrightarrow>
      count_EndOfText (fst (tokenize text indent offset)) = 1 \<and>
      fst (tokenize text indent offset) \<noteq> [] \<and>
      attrs (last (fst (tokenize text indent offset))) = EndOfText) \<and>
   (snd (tokenize text indent offset) = Some malformed_transformation \<longrightarrow>
      count_EndOfText (fst (tokenize text indent offset)) = 0)"
proof -
  let ?s = "TextIterator text offset"
  have tk: "tokenize text indent offset =
      (tokens_of (fst (tokenize_loop ?s indent)), snd (tokenize_loop ?s indent))"
    by (simp add: tokenize_def tokenize_events_def split: prod.splits)
  from loop_shape [of ?s indent] obtain pre fin where
    pre: "list_all plain_event pre" and fin: "fin = [] \<or> (\<exists>cs. fin = [Abandoned cs])"
    and sh: "case snd (tokenize_loop ?s indent) of
        None \<Rightarrow> \<exists>p. fst (tokenize_loop ?s indent) = pre @ fin @ [Yielded (end_of_text p) []]
      | Some e \<Rightarrow> fst (tokenize_loop ?s indent) = pre @ fin \<and> fin \<noteq> [] \<and> e \<noteq> StopIteration"
    by blast
  note none = count_EndOfText_none [OF plain_tokens [OF pre]]
  note fin0 = tokens_of_abandoned [OF fin]
  show ?thesis
  proof (cases "snd (tokenize_loop ?s indent)")
    case None
    with sh obtain p where "fst (tokenize_loop ?s indent) = pre @ fin @ [Yielded (end_of_text p) []]"
      by auto
    then have "tokens_of (fst (tokenize_loop ?s indent)) = tokens_of pre @ [end_of_text p]"
      using fin0 by simp
    with None none tk show ?thesis by (simp add: end_of_text_def count_EndOfText_def)
  next
    case (Some e)
    with sh have "fst (tokenize_loop ?s indent) = pre @ fin" by simp
    then have "tokens_of (fst (tokenize_loop ?s indent)) = tokens_of pre"
      using fin0 by simp
    with Some none tk show ?thesis by simp
  qed
qed

theorem C3_one_EndOfText_last_witness:
  "snd (tokenize ''${1:hello}'' [] \<lparr>line = 0, col = 0\<rparr>) = None \<and>
   fst (tokenize ''${1:hello}'' [] \<lparr>line = 0, col = 0\<rparr>) =
     [\<lparr>initial_text = ''hello'', tok_start = \<lparr>line = 0, col = 0\<rparr>,
        tok_end = \<lparr>line = 0, col = 10\<rparr>, attrs = TabStop 1\<rparr>,
      \<lparr>initial_text = [], tok_start = \<lparr>line = 0, col = 10\<rparr>,
        tok_end = \<lparr>line = 0, col = 10\<rparr>, attrs = EndOfText\<rparr>] \<and>
   count_EndOfText (fst (tokenize ''${1:hello}'' [] \<lparr>line = 0, col = 0\<rparr>)) = 1 \<and>
   attrs (last (fst (tokenize ''${1:hello}'' [] \<lparr>line = 0, col = 0\<rparr>))) = EndOfText"
proof -
  have t: "tokenize ''${1:hello}'' [] \<lparr>line = 0, col = 0\<rparr> =
     ([\<lparr>initial_text = ''hello'', tok_start = \<lparr>line = 0, col = 0\<rparr>,
        tok_end = \<lparr>line = 0, col = 10\<rparr>, attrs = TabStop 1\<rparr>,
      \<lparr>initial_text = [], tok_start = \<lparr>line = 0, col = 10\<rparr>,
        tok_end = \<lparr>line = 0, col = 10\<rparr>, attrs = EndOfText\<rparr>], None)"
    by code_simp
  then have n: "snd (tokenize ''${1:hello}'' [] \<lparr>line = 0, col = 0\<rparr>) = None" by simp
  from C3_one_EndOfText_last [of "''${1:hello}''" "[]" "\<lparr>line = 0, col = 0\<rparr>"] n t
  show ?thesis by simp
qed

text \<open>
  C1 as it is worded: the input a step of the driver contributes is the span of a yielded
  token or a single discarded character, and nothing else.
\<close>

fun yielded_or_discarded :: "event \<Rightarrow> string" where
  "yielded_or_discarded (Yielded tok cs) = cs"
| "yielded_or_discarded (Discarded c) = [c]"
| "yielded_or_discarded (Abandoned cs) = []"

text \<open>
  C1 does not hold as worded: on \<^verbatim>\<open>$1${2:x\<close> the driver yields the Mirror token for
  \<^verbatim>\<open>$1\<close>, the TabStop parse of \<^verbatim>\<open>${2:x\<close> runs out of input and its token is
  never yielded, and EndOfText follows; no error is raised, and the spans of the yielded
  tokens with the discarded characters give \<^verbatim>\<open>$1\<close> only.
\<close>

theorem C1_counterexample:
  "tokenize_events ''$1${2:x'' [] \<lparr>line = 0, col = 0\<rparr> =
     ([Yielded \<lparr>initial_text = [], tok_start = \<lparr>line = 0, col = 0\<rparr>,
                tok_end = \<lparr>line = 0, col = 2\<rparr>, attrs = Mirror 1\<rparr> ''$1'',
       Abandoned ''${2:x'',
       Yielded \<lparr>initial_text = [], tok_start = \<lparr>line = 0, col = 7\<rparr>,
                tok_end = \<lparr>line = 0, col = 7\<rparr>, attrs = EndOfText\<rparr> []],
      None) \<and>
   concat (map yielded_or_discarded
     (fst (tokenize_events ''$1${2:x'' [] \<lparr>line = 0, col = 0\<rparr>))) = ''$1'' \<and>
   ''$1'' \<noteq> ''$1${2:x''"
  by code_simp

text \<open>
  C1, amended: for every text, indent and offset on which \<^verbatim>\<open>tokenize\<close> does not
  raise, the spans of input consumed by the yielded tokens, the single characters
  discarded when no recognizer matched, and the input consumed by the one parse (if any)
  that ran out of input, which comes last before EndOfText and whose token is not yielded,
  concatenated in order, are the original input; when no parse ran out of input, the
  spans of the yielded tokens and the discarded characters alone are the input. The end of
  a yielded token is its start walked over the input it consumed; the (start, end) spans
  of the yielded tokens do not overlap and follow each other in position order.
\<close>

theorem C1_reconstruction:
  "tokenize_events text indent offset = (evs, None) \<Longrightarrow>
     tokenize text indent offset = (tokens_of evs, None) \<and>
     concat (map consumed evs) = text \<and>
     (\<exists>pre fin p. evs = pre @ fin @ [Yielded (end_of_text p) []] \<and>
        list_all plain_event pre \<and> (fin = [] \<or> (\<exists>cs. fin = [Abandoned cs]))) \<and>
     ((\<forall>ev\<in>set evs. \<forall>cs. ev \<noteq> Abandoned cs) \<longrightarrow>
        concat (map yielded_or_discarded evs) = text) \<and>
     (\<forall>tok cs. Yielded tok cs \<in> set evs \<longrightarrow> tok_end tok = walk (tok_start tok) cs) \<and>
     sorted_wrt (\<lambda>a b. pos_le (tok_end a) (tok_start b)) (tokens_of evs) \<and>
     (\<forall>t\<in>set (tokens_of evs). pos_le (tok_start t) (tok_end t))"
proof -
  let ?s = "TextIterator text offset"
  assume ev: "tokenize_events text indent offset = (evs, None)"
  then have l: "tokenize_loop ?s indent = (evs, None)" by (simp add: tokenize_events_def)
  have a: "tokenize text indent offset = (tokens_of evs, None)"
    using ev by (simp add: tokenize_def)
  have b: "concat (map consumed evs) = text"
    using loop_consumed [of ?s indent] l by (simp add: TextIterator_def)
  have c: "\<exists>pre fin p. evs = pre @ fin @ [Yielded (end_of_text p) []] \<and>
        list_all plain_event pre \<and> (fin = [] \<or> (\<exists>cs. fin = [Abandoned cs]))"
    using loop_shape [of ?s indent] l by auto
  have same: "(\<forall>ev\<in>set xs. \<forall>cs. ev \<noteq> Abandoned cs) \<Longrightarrow>
      map yielded_or_discarded xs = map consumed xs" for xs
  proof (induction xs)
    case Nil
    show ?case by simp
  next
    case (Cons x xs)
    then show ?case by (cases x) auto
  qed
  have d: "(\<forall>ev\<in>set evs. \<forall>cs. ev \<noteq> Abandoned cs) \<longrightarrow>
        concat (map yielded_or_discarded evs) = text"
  proof
    assume "\<forall>ev\<in>set evs. \<forall>cs. ev \<noteq> Abandoned cs"
    from same [OF this]
    have "concat (map yielded_or_discarded evs) = concat (map consumed evs)"
      by (rule arg_cong)
    with b show "concat (map yielded_or_discarded evs) = text" by (simp only:)
  qed
  have e: "\<forall>tok cs. Yielded tok cs \<in> set evs \<longrightarrow> tok_end tok = walk (tok_start tok) cs"
    using loop_walk [of _ _ ?s indent] l by simp
  have f: "sorted_wrt (\<lambda>a b. pos_le (tok_end a) (tok_start b)) (tokens_of evs) \<and>
     (\<forall>t\<in>set (tokens_of evs). pos_le (tok_start t) (tok_end t))"
    using loop_ordered [of ?s indent] l by simp
  from a b c d e f show ?thesis by blast
qed

theorem C1_reconstruction_witness:
  "tokenize_events ''a$1${2:x'' [] \<lparr>line = 0, col = 0\<rparr> =
     ([Discarded CHR ''a'',
       Yielded \<lparr>initial_text = [], tok_start = \<lparr>line = 0, col = 1\<rparr>,
                tok_end = \<lparr>line = 0, col = 3\<rparr>, attrs = Mirror 1\<rparr> ''$1'',
       Abandoned ''${2:x'',
       Yielded \<lparr>initial_text = [], tok_start = \<lparr>line = 0, col = 8\<rparr>,
                tok_end = \<lparr>line = 0, col = 8\<rparr>, attrs = EndOfText\<rparr> []],
      None) \<and>
   tokenize ''a$1${2:x'' [] \<lparr>line = 0, col = 0\<rparr> =
     ([\<lparr>initial_text = [], tok_start = \<lparr>line = 0, col = 1\<rparr>,
         tok_end = \<lparr>line = 0, col = 3\<rparr>, attrs = Mirror 1\<rparr>,
       \<lparr>initial_text = [], tok_start = \<lparr>line = 0, col = 8\<rparr>,
         tok_end = \<lparr>line = 0, col = 8\<rparr>, attrs = EndOfText\<rparr>], None) \<and>
   ''a'' @ ''$1'' @ ''${2:x'' @ [] = ''a$1${2:x'' \<and>
   pos_le \<lparr>line = 0, col = 1\<rparr> \<lparr>line = 0, col = 3\<rparr> \<and>
   pos_le \<lparr>line = 0, col = 3\<rparr> \<lparr>line = 0, col = 8\<rparr> \<and>
   \<lparr>line = 0, col = 3\<rparr> = walk \<lparr>line = 0, col = 1\<rparr> ''$1''"
proof -
  have ev: "tokenize_events ''a$1${2:x'' [] \<lparr>line = 0, col = 0\<rparr> =
     ([Discarded CHR ''a'',
       Yielded \<lparr>initial_text = [], tok_start = \<lparr>line = 0, col = 1\<rparr>,
                tok_end = \<lparr>line = 0, col = 3\<rparr>, attrs = Mirror 1\<rparr> ''$1'',
       Abandoned ''${2:x'',
       Yielded \<lparr>initial_text = [], tok_start = \<lparr>line = 0, col = 8\<rparr>,
                tok_end = \<lparr>line = 0, col = 8\<rparr>, attrs = EndOfText\<rparr> []],
      None)"
    by code_simp
  from C1_reconstruction [OF ev] ev show ?thesis by simp
qed

subsection \<open>Claims about parses that run out of input\<close>

lemma parse_transformation_stop:
  "parse_till_unescaped_char s3 ''/'' = Inl (StopIteration, s4) \<or>
   (\<exists>search c s'. parse_till_unescaped_char s3 ''/'' = Inr ((search, c), s') \<and>
      parse_till_unescaped_char s' ''/'' = Inl (StopIteration, s4)) \<Longrightarrow>
   parse_transformation s3 = Inl (StopIteration, s4)"
  by (auto simp: parse_transformation_def)

lemma malformed_not_stop [simp]: "malformed_transformation \<noteq> StopIteration"
  by (simp add: malformed_transformation_def)

lemma visual_raises:
  assumes "VisualToken_starts_here s"
    and "VisualToken_parse s indent = Inl (e, s4)"
  shows "tokenize_loop s indent =
           (Abandoned (span s s4) # fst (on_exception e s4 indent),
            snd (on_exception e s4 indent))"
proof -
  from assms(1) visual_not_escape [OF assms(1)] Token_init_Inl [of VisualToken_parse s indent e s4, OF assms(2)]
  have "try_tokens ALLOWED_TOKENS s indent = Inl (e, s4)"
    by (simp add: ALLOWED_TOKENS_def)
  then show ?thesis by (rule loop_raise)
qed

lemma transformation_raises:
  assumes "TransformationToken_starts_here s"
    and "TransformationToken_parse s indent = Inl (e, s5)"
  shows "tokenize_loop s indent =
           (Abandoned (span s s5) # fst (on_exception e s5 indent),
            snd (on_exception e s5 indent))"
proof -
  from assms(1) transformation_not_escape [OF assms(1)] transformation_not_visual [OF assms(1)]
    Token_init_Inl [of TransformationToken_parse s indent e s5, OF assms(2)]
  have "try_tokens ALLOWED_TOKENS s indent = Inl (e, s5)"
    by (simp add: ALLOWED_TOKENS_def)
  then show ?thesis by (rule loop_raise)
qed

lemma visual_example:
  "tokenize ''${VISUAL/a}'' indent offset = ([], Some malformed_transformation)"
  apply (simp add: tokenize_def tokenize_events_def TextIterator_def)
  apply (subst tokenize_loop.simps)
  apply (simp add: ALLOWED_TOKENS_def EscapeCharToken_starts_here_def peek_def stream_peek_def
     VisualToken_starts_here_def VisualToken_CHECK_def re_literal_def re_class_def
     Token_init_def VisualToken_parse_def stream_next_def Let_def stream_pos_def
     numeral_eq_Suc py_getitem_def parse_till_unescaped_char_def
     parse_till_unescaped_char_loop.simps parse_transformation_def span_def
     on_exception_def tokens_of_def)
  done

text \<open>
  C4: whenever the driver comes to a place where a Visual token starts, the scan of its
  alternative text ends at \<^verbatim>\<open>/\<close>, and the scan of \<^verbatim>\<open>search\<close> or the scan of
  \<^verbatim>\<open>replace\<close> then runs out of input before its unescaped \<^verbatim>\<open>/\<close>, the call of
  \<^verbatim>\<open>tokenize\<close> ends with the malformed-transformation error, after the tokens yielded
  before that place; the Visual token is not yielded and no EndOfText follows. In
  particular \<^verbatim>\<open>${VISUAL/a}\<close> gives this error and no token, for every indent and
  offset.
\<close>

theorem C4_malformed_transformation:
  "(driver_reaches indent (TextIterator text offset) evs s \<and>
    VisualToken_starts_here s \<and>
    next_times 8 s = Inr (u, s1) \<and>
    (if peek s1 1 = Some '':'' then next_times 1 s1 else Inr ((), s1)) = Inr (u', s2) \<and>
    parse_till_unescaped_char s2 ''/}'' = Inr ((alt, CHR ''/''), s3) \<and>
    (parse_till_unescaped_char s3 ''/'' = Inl (StopIteration, s4) \<or>
     (\<exists>search c s'. parse_till_unescaped_char s3 ''/'' = Inr ((search, c), s') \<and>
        parse_till_unescaped_char s' ''/'' = Inl (StopIteration, s4))) \<longrightarrow>
    tokenize text indent offset = (tokens_of evs, Some malformed_transformation) \<and>
    tokenize_events text indent offset =
      (evs @ [Abandoned (span s s4)], Some malformed_transformation)) \<and>
   tokenize ''${VISUAL/a}'' indent' offset' = ([], Some malformed_transformation)"
proof (intro conjI impI)
  show "tokenize ''${VISUAL/a}'' indent' offset' = ([], Some malformed_transformation)"
    by (rule visual_example)
next
  assume h: "driver_reaches indent (TextIterator text offset) evs s \<and>
    VisualToken_starts_here s \<and>
    next_times 8 s = Inr (u, s1) \<and>
    (if peek s1 1 = Some '':'' then next_times 1 s1 else Inr ((), s1)) = Inr (u', s2) \<and>
    parse_till_unescaped_char s2 ''/}'' = Inr ((alt, CHR ''/''), s3) \<and>
    (parse_till_unescaped_char s3 ''/'' = Inl (StopIteration, s4) \<or>
     (\<exists>search c s'. parse_till_unescaped_char s3 ''/'' = Inr ((search, c), s') \<and>
        parse_till_unescaped_char s' ''/'' = Inl (StopIteration, s4)))"
  then have reach: "driver_reaches indent (TextIterator text offset) evs s"
    and starts: "VisualToken_starts_here s"
    and h1: "next_times 8 s = Inr (u, s1)"
    and h2: "(if peek s1 1 = Some '':'' then next_times 1 s1 else Inr ((), s1)) = Inr (u', s2)"
    and h3: "parse_till_unescaped_char s2 ''/}'' = Inr ((alt, CHR ''/''), s3)"
    by simp_all
  from h have pt: "parse_transformation s3 = Inl (StopIteration, s4)"
    by (intro parse_transformation_stop) simp
  have "VisualToken_parse s indent = Inl (malformed_transformation, s4)"
    unfolding VisualToken_parse_def
    by (simp only: h1 rbind_simps h2 h3 pt Let_def fst_conv snd_conv if_True simp_thms
        sum.case prod.case)
  from visual_raises [OF starts this]
  have "tokenize_loop s indent = ([Abandoned (span s s4)], Some malformed_transformation)"
    by simp
  with reaches_loop [OF reach]
  have ev: "tokenize_events text indent offset =
      (evs @ [Abandoned (span s s4)], Some malformed_transformation)"
    by (simp add: tokenize_events_def)
  then show "tokenize_events text indent offset =
      (evs @ [Abandoned (span s s4)], Some malformed_transformation)" .
  from ev show "tokenize text indent offset = (tokens_of evs, Some malformed_transformation)"
    by (simp add: tokenize_def)
qed

theorem C4_malformed_transformation_witness:
  "driver_reaches [] (TextIterator ''$1${VISUAL:x/y'' \<lparr>line = 0, col = 0\<rparr>)
     [Yielded \<lparr>initial_text = [], tok_start = \<lparr>line = 0, col = 0\<rparr>,
               tok_end = \<lparr>line = 0, col = 2\<rparr>, attrs = Mirror 1\<rparr> ''$1'']
     \<lparr>s_text = ''$1${VISUAL:x/y'', s_line = 0, s_col = 2, s_idx = 2\<rparr> \<and>
   VisualToken_starts_here \<lparr>s_text = ''$1${VISUAL:x/y'', s_line = 0, s_col = 2, s_idx = 2\<rparr> \<and>
   parse_till_unescaped_char
     \<lparr>s_text = ''$1${VISUAL:x/y'', s_line = 0, s_col = 11, s_idx = 11\<rparr> ''/}'' =
     Inr ((''x'', CHR ''/''),
          \<lparr>s_text = ''$1${VISUAL:x/y'', s_line = 0, s_col = 13, s_idx = 13\<rparr>) \<and>
   parse_till_unescaped_char
     \<lparr>s_text = ''$1${VISUAL:x/y'', s_line = 0, s_col = 13, s_idx = 13\<rparr> ''/'' =
     Inl (StopIteration,
          \<lparr>s_text = ''$1${VISUAL:x/y'', s_line = 0, s_col = 14, s_idx = 14\<rparr>) \<and>
   tokenize ''$1${VISUAL:x/y'' [] \<lparr>line = 0, col = 0\<rparr> =
     ([\<lparr>initial_text = [], tok_start = \<lparr>line = 0, col = 0\<rparr>,
         tok_end = \<lparr>line = 0, col = 2\<rparr>, attrs = Mirror 1\<rparr>],
      Some malformed_transformation)"
proof -
  let ?t = "''$1${VISUAL:x/y''"
  let ?s0 = "TextIterator ?t \<lparr>line = 0, col = 0\<rparr>"
  let ?s2 = "\<lparr>s_text = ?t, s_line = 0, s_col = 2, s_idx = 2\<rparr>"
  let ?s10 = "\<lparr>s_text = ?t, s_line = 0, s_col = 10, s_idx = 10\<rparr>"
  let ?s11 = "\<lparr>s_text = ?t, s_line = 0, s_col = 11, s_idx = 11\<rparr>"
  let ?s13 = "\<lparr>s_text = ?t, s_line = 0, s_col = 13, s_idx = 13\<rparr>"
  let ?s14 = "\<lparr>s_text = ?t, s_line = 0, s_col = 14, s_idx = 14\<rparr>"
  let ?tok = "\<lparr>initial_text = [], tok_start = \<lparr>line = 0, col = 0\<rparr>,
               tok_end = \<lparr>line = 0, col = 2\<rparr>, attrs = Mirror 1\<rparr>"
  have tr: "try_tokens ALLOWED_TOKENS ?s0 [] = Inr (Some ?tok, ?s2)" by code_simp
  have sp: "span ?s0 ?s2 = ''$1''" by code_simp
  from driver_reaches.yielded [OF tr driver_reaches.here] sp
  have reach: "driver_reaches [] ?s0 [Yielded ?tok ''$1''] ?s2" by simp
  have starts: "VisualToken_starts_here ?s2" by code_simp
  have h1: "next_times 8 ?s2 = Inr ((), ?s10)" by code_simp
  have h2: "(if peek ?s10 1 = Some '':'' then next_times 1 ?s10 else Inr ((), ?s10)) =
      Inr ((), ?s11)"
    by code_simp
  have h3: "parse_till_unescaped_char ?s11 ''/}'' = Inr ((''x'', CHR ''/''), ?s13)"
    by code_simp
  have h4: "parse_till_unescaped_char ?s13 ''/'' = Inl (StopIteration, ?s14)"
    by code_simp
  from C4_malformed_transformation [of "[]" ?t "\<lparr>line = 0, col = 0\<rparr>" "[Yielded ?tok ''$1'']"
      ?s2 "()" ?s10 "()" ?s11 "''x''" ?s13 ?s14]
    reach starts h1 h2 h3 h4
  have "tokenize ?t [] \<lparr>line = 0, col = 0\<rparr> =
      (tokens_of [Yielded ?tok ''$1''], Some malformed_transformation)"
    by blast
  with reach starts h3 h4 show ?thesis by simp
qed

text \<open>
  C8: whenever the driver comes to a place where a Transformation token starts and, after
  the prefix \<^verbatim>\<open>${\<close>, the number and the \<^verbatim>\<open>/\<close>, the scan of \<^verbatim>\<open>search\<close>, of
  \<^verbatim>\<open>replace\<close> or of \<^verbatim>\<open>options\<close> runs out of input, \<^verbatim>\<open>tokenize\<close> raises nothing:
  the sequence is the tokens yielded before that place, none of them an EndOfText, and
  then the one EndOfText token; the Transformation token is never yielded.
\<close>

theorem C8_transformation_cut_short:
  "driver_reaches indent (TextIterator text offset) evs s \<Longrightarrow>
   TransformationToken_starts_here s \<Longrightarrow>
   stream_next s = Inr (a, s1) \<Longrightarrow>
   stream_next s1 = Inr (b, s2) \<Longrightarrow>
   parse_number s2 = Inr (number, s3) \<Longrightarrow>
   stream_next s3 = Inr (c, s4) \<Longrightarrow>
   parse_transformation s4 = Inl (StopIteration, s5) \<Longrightarrow>
     tokenize text indent offset = (tokens_of evs @ [end_of_text (stream_pos s5)], None) \<and>
     (\<forall>t\<in>set (tokens_of evs). attrs t \<noteq> EndOfText) \<and>
     attrs (end_of_text (stream_pos s5)) = EndOfText \<and>
     tokenize_events text indent offset =
       (evs @ [Abandoned (span s s5), Yielded (end_of_text (stream_pos s5)) []], None)"
proof -
  assume reach: "driver_reaches indent (TextIterator text offset) evs s"
    and starts: "TransformationToken_starts_here s"
    and h1: "stream_next s = Inr (a, s1)" and h2: "stream_next s1 = Inr (b, s2)"
    and h3: "parse_number s2 = Inr (number, s3)" and h4: "stream_next s3 = Inr (c, s4)"
    and h5: "parse_transformation s4 = Inl (StopIteration, s5)"
  have "TransformationToken_parse s indent = Inl (StopIteration, s5)"
    by (simp add: TransformationToken_parse_def h1 h2 h3 h4 h5)
  from transformation_raises [OF starts this]
  have "tokenize_loop s indent =
      ([Abandoned (span s s5), Yielded (end_of_text (stream_pos s5)) []], None)"
    by simp
  with reaches_loop [OF reach]
  have ev: "tokenize_events text indent offset =
      (evs @ [Abandoned (span s s5), Yielded (end_of_text (stream_pos s5)) []], None)"
    by (simp add: tokenize_events_def)
  then have "tokenize text indent offset =
      (tokens_of evs @ [end_of_text (stream_pos s5)], None)"
    by (simp add: tokenize_def)
  with ev plain_tokens [OF reaches_plain [OF reach]] show ?thesis
    by (simp add: end_of_text_def)
qed

theorem C8_transformation_cut_short_witness:
  "driver_reaches [] (TextIterator ''a${1/foo'' \<lparr>line = 0, col = 0\<rparr>) [Discarded CHR ''a'']
     \<lparr>s_text = ''a${1/foo'', s_line = 0, s_col = 1, s_idx = 1\<rparr> \<and>
   TransformationToken_starts_here \<lparr>s_text = ''a${1/foo'', s_line = 0, s_col = 1, s_idx = 1\<rparr> \<and>
   parse_transformation \<lparr>s_text = ''a${1/foo'', s_line = 0, s_col = 5, s_idx = 5\<rparr> =
     Inl (StopIteration, \<lparr>s_text = ''a${1/foo'', s_line = 0, s_col = 8, s_idx = 8\<rparr>) \<and>
   tokenize ''a${1/foo'' [] \<lparr>line = 0, col = 0\<rparr> =
     ([\<lparr>initial_text = [], tok_start = \<lparr>line = 0, col = 8\<rparr>,
         tok_end = \<lparr>line = 0, col = 8\<rparr>, attrs = EndOfText\<rparr>], None) \<and>
   tokenize_events ''a${1/foo'' [] \<lparr>line = 0, col = 0\<rparr> =
     ([Discarded CHR ''a'', Abandoned ''${1/foo'',
       Yielded \<lparr>initial_text = [], tok_start = \<lparr>line = 0, col = 8\<rparr>,
                tok_end = \<lparr>line = 0, col = 8\<rparr>, attrs = EndOfText\<rparr> []], None)"
proof -
  let ?t = "''a${1/foo''"
  let ?s0 = "TextIterator ?t \<lparr>line = 0, col = 0\<rparr>"
  let ?s1 = "\<lparr>s_text = ?t, s_line = 0, s_col = 1, s_idx = 1\<rparr>"
  let ?s2 = "\<lparr>s_text = ?t, s_line = 0, s_col = 2, s_idx = 2\<rparr>"
  let ?s3 = "\<lparr>s_text = ?t, s_line = 0, s_col = 3, s_idx = 3\<rparr>"
  let ?s4 = "\<lparr>s_text = ?t, s_line = 0, s_col = 4, s_idx = 4\<rparr>"
  let ?s5 = "\<lparr>s_text = ?t, s_line = 0, s_col = 5, s_idx = 5\<rparr>"
  let ?s8 = "\<lparr>s_text = ?t, s_line = 0, s_col = 8, s_idx = 8\<rparr>"
  have tr: "try_tokens ALLOWED_TOKENS ?s0 [] = Inr (None, ?s0)" by code_simp
  have nx: "stream_next ?s0 = Inr (CHR ''a'', ?s1)" by code_simp
  from driver_reaches.discarded [OF tr nx driver_reaches.here]
  have reach: "driver_reaches [] ?s0 [Discarded CHR ''a''] ?s1" .
  have starts: "TransformationToken_starts_here ?s1" by code_simp
  have h1: "stream_next ?s1 = Inr (CHR ''$'', ?s2)" by code_simp
  have h2: "stream_next ?s2 = Inr (CHR ''{'', ?s3)" by code_simp
  have h3: "parse_number ?s3 = Inr (1, ?s4)" by code_simp
  have h4: "stream_next ?s4 = Inr (CHR ''/'', ?s5)" by code_simp
  have h5: "parse_transformation ?s5 = Inl (StopIteration, ?s8)" by code_simp
  have sp: "span ?s1 ?s8 = ''${1/foo''" by code_simp
  from C8_transformation_cut_short [OF reach starts h1 h2 h3 h4 h5] reach starts h5 sp
  show ?thesis by (simp add: end_of_text_def stream_pos_def)
qed

text \<open>
  C2 does not hold as worded where the parse of the first matching recognizer runs out of
  input: on \<^verbatim>\<open>${1:abc\<close> the predicates of EscapeChar, Visual and Transformation fail,
  the predicate of TabStop matches, and no TabStop token is yielded: the sequence is the
  EndOfText token alone.
\<close>

theorem C2_counterexample:
  "\<not> starts_here EscapeCharToken (TextIterator ''${1:abc'' \<lparr>line = 0, col = 0\<rparr>) \<and>
   \<not> starts_here VisualToken (TextIterator ''${1:abc'' \<lparr>line = 0, col = 0\<rparr>) \<and>
   \<not> starts_here TransformationToken (TextIterator ''${1:abc'' \<lparr>line = 0, col = 0\<rparr>) \<and>
   starts_here TabStopToken (TextIterator ''${1:abc'' \<lparr>line = 0, col = 0\<rparr>) \<and>
   tokenize ''${1:abc'' [] \<lparr>line = 0, col = 0\<rparr> =
     ([\<lparr>initial_text = [], tok_start = \<lparr>line = 0, col = 7\<rparr>,
         tok_end = \<lparr>line = 0, col = 7\<rparr>, attrs = EndOfText\<rparr>], None)"
  by code_simp

text \<open>
  C2, amended: at every place of the driver loop the recognizers are tried in the order
  EscapeChar, Visual, Transformation, TabStop, Mirror, PythonCode, VimLCode, ShellCode;
  the driver runs the parse of the first one whose predicate matches, and of no other.
  When that parse returns, its token is yielded and the loop goes on behind it. When it
  raises, its token is not yielded: on the end-of-input signal the driver yields the
  EndOfText token and stops without error, on any other exception it yields nothing more
  and the exception leaves \<^verbatim>\<open>tokenize\<close>. If no predicate matches and a character is
  left, the driver consumes exactly that one character and emits no token for it; if no
  predicate matches at the end of the input, it yields EndOfText. What the loop does from
  a place the driver has come to is how the whole call ends: its tokens follow the ones
  yielded before, and its error, if any, is the error of the call.
\<close>

theorem C2_priority_order:
  "ALLOWED_TOKENS =
     [EscapeCharToken, VisualToken, TransformationToken, TabStopToken,
      MirrorToken, PythonCodeToken, VimLCodeToken, ShellCodeToken] \<and>
   (ALLOWED_TOKENS = before @ cls # after \<and> (\<forall>c\<in>set before. \<not> starts_here c s) \<and>
    starts_here cls s \<longrightarrow>
      try_tokens ALLOWED_TOKENS s indent =
        rbind (Token_init (token_parse cls) s indent) (\<lambda>tok s1. Inr (Some tok, s1)) \<and>
      (\<forall>tok s1. Token_init (token_parse cls) s indent = Inr (tok, s1) \<longrightarrow>
         tokenize_loop s indent =
           (Yielded tok (span s s1) # fst (tokenize_loop s1 indent),
            snd (tokenize_loop s1 indent)) \<and>
         tokens_of (fst (tokenize_loop s indent)) =
           tok # tokens_of (fst (tokenize_loop s1 indent))) \<and>
      (\<forall>s1. Token_init (token_parse cls) s indent = Inl (StopIteration, s1) \<longrightarrow>
         tokenize_loop s indent =
           ([Abandoned (span s s1), Yielded (end_of_text (stream_pos s1)) []], None) \<and>
         tokens_of (fst (tokenize_loop s indent)) = [end_of_text (stream_pos s1)]) \<and>
      (\<forall>e s1. Token_init (token_parse cls) s indent = Inl (e, s1) \<and> e \<noteq> StopIteration \<longrightarrow>
         tokenize_loop s indent = ([Abandoned (span s s1)], Some e) \<and>
         tokens_of (fst (tokenize_loop s indent)) = [])) \<and>
   ((\<forall>c\<in>set ALLOWED_TOKENS. \<not> starts_here c s) \<longrightarrow>
      (s_idx s < length (s_text s) \<longrightarrow>
         (\<exists>s2. stream_next s = Inr (s_text s ! s_idx s, s2) \<and> s_idx s2 = s_idx s + 1 \<and>
            tokenize_loop s indent =
              (Discarded (s_text s ! s_idx s) # fst (tokenize_loop s2 indent),
               snd (tokenize_loop s2 indent)) \<and>
            tokens_of (fst (tokenize_loop s indent)) =
              tokens_of (fst (tokenize_loop s2 indent)))) \<and>
      (length (s_text s) \<le> s_idx s \<longrightarrow>
         tokenize_loop s indent = ([Yielded (end_of_text (stream_pos s)) []], None))) \<and>
   (driver_reaches indent (TextIterator text offset) evs s \<longrightarrow>
      tokenize text indent offset =
        (tokens_of evs @ tokens_of (fst (tokenize_loop s indent)),
         snd (tokenize_loop s indent)))"
proof (intro conjI impI allI)
  show "ALLOWED_TOKENS =
     [EscapeCharToken, VisualToken, TransformationToken, TabStopToken,
      MirrorToken, PythonCodeToken, VimLCodeToken, ShellCodeToken]"
    by (simp add: ALLOWED_TOKENS_def)
next
  assume h: "ALLOWED_TOKENS = before @ cls # after \<and> (\<forall>c\<in>set before. \<not> starts_here c s) \<and>
    starts_here cls s"
  with try_tokens_first [of before s cls after indent]
  show "try_tokens ALLOWED_TOKENS s indent =
        rbind (Token_init (token_parse cls) s indent) (\<lambda>tok s1. Inr (Some tok, s1))"
    by simp
next
  fix tok s1
  assume h: "ALLOWED_TOKENS = before @ cls # after \<and> (\<forall>c\<in>set before. \<not> starts_here c s) \<and>
    starts_here cls s"
    and t: "Token_init (token_parse cls) s indent = Inr (tok, s1)"
  from h try_tokens_first [of before s cls after indent] t
  have "try_tokens ALLOWED_TOKENS s indent = Inr (Some tok, s1)" by simp
  then have l: "tokenize_loop s indent =
           (Yielded tok (span s s1) # fst (tokenize_loop s1 indent),
            snd (tokenize_loop s1 indent))"
    by (rule loop_yield)
  then show "tokenize_loop s indent =
           (Yielded tok (span s s1) # fst (tokenize_loop s1 indent),
            snd (tokenize_loop s1 indent))" .
  from l show "tokens_of (fst (tokenize_loop s indent)) =
           tok # tokens_of (fst (tokenize_loop s1 indent))"
    by simp
next
  fix s1
  assume h: "ALLOWED_TOKENS = before @ cls # after \<and> (\<forall>c\<in>set before. \<not> starts_here c s) \<and>
    starts_here cls s"
    and t: "Token_init (token_parse cls) s indent = Inl (StopIteration, s1)"
  from h try_tokens_first [of before s cls after indent] t
  have "try_tokens ALLOWED_TOKENS s indent = Inl (StopIteration, s1)" by simp
  from loop_raise [OF this]
  have l: "tokenize_loop s indent =
           ([Abandoned (span s s1), Yielded (end_of_text (stream_pos s1)) []], None)"
    by simp
  then show "tokenize_loop s indent =
           ([Abandoned (span s s1), Yielded (end_of_text (stream_pos s1)) []], None)" .
  from l show "tokens_of (fst (tokenize_loop s indent)) = [end_of_text (stream_pos s1)]"
    by simp
next
  fix e s1
  assume h: "ALLOWED_TOKENS = before @ cls # after \<and> (\<forall>c\<in>set before. \<not> starts_here c s) \<and>
    starts_here cls s"
    and t: "Token_init (token_parse cls) s indent = Inl (e, s1) \<and> e \<noteq> StopIteration"
  from h try_tokens_first [of before s cls after indent] t
  have "try_tokens ALLOWED_TOKENS s indent = Inl (e, s1)" by simp
  from loop_raise [OF this] t
  have l: "tokenize_loop s indent = ([Abandoned (span s s1)], Some e)"
    by simp
  then show "tokenize_loop s indent = ([Abandoned (span s s1)], Some e)" .
  from l show "tokens_of (fst (tokenize_loop s indent)) = []"
    by simp
next
  assume none: "\<forall>c\<in>set ALLOWED_TOKENS. \<not> starts_here c s"
    and more: "s_idx s < length (s_text s)"
  from try_tokens_no_match [OF none]
  have tr: "try_tokens ALLOWED_TOKENS s indent = Inr (None, s)" .
  from more obtain s2 where nx: "stream_next s = Inr (s_text s ! s_idx s, s2)"
    by (simp add: stream_next_def Let_def)
  from stream_next_Inr [OF nx] have "s_idx s2 = s_idx s + 1" by simp
  with nx loop_discard [OF tr nx]
  show "\<exists>s2. stream_next s = Inr (s_text s ! s_idx s, s2) \<and> s_idx s2 = s_idx s + 1 \<and>
            tokenize_loop s indent =
              (Discarded (s_text s ! s_idx s) # fst (tokenize_loop s2 indent),
               snd (tokenize_loop s2 indent)) \<and>
            tokens_of (fst (tokenize_loop s indent)) =
              tokens_of (fst (tokenize_loop s2 indent))"
    by (intro exI [of _ s2]) simp
next
  assume none: "\<forall>c\<in>set ALLOWED_TOKENS. \<not> starts_here c s"
    and last: "length (s_text s) \<le> s_idx s"
  from try_tokens_no_match [OF none]
  have tr: "try_tokens ALLOWED_TOKENS s indent = Inr (None, s)" .
  from last have nx: "stream_next s = Inl (StopIteration, s)"
    by (simp add: stream_next_def)
  from loop_stop [OF tr nx]
  show "tokenize_loop s indent = ([Yielded (end_of_text (stream_pos s)) []], None)"
    by simp
next
  assume "driver_reaches indent (TextIterator text offset) evs s"
  from reaches_loop [OF this]
  show "tokenize text indent offset =
        (tokens_of evs @ tokens_of (fst (tokenize_loop s indent)),
         snd (tokenize_loop s indent))"
    by (simp add: tokenize_def tokenize_events_def)
qed

theorem C2_priority_order_witness:
  "ALLOWED_TOKENS = [EscapeCharToken, VisualToken, TransformationToken] @ TabStopToken #
     [MirrorToken, PythonCodeToken, VimLCodeToken, ShellCodeToken] \<and>
   \<not> starts_here EscapeCharToken (TextIterator ''${1:a}b'' \<lparr>line = 0, col = 0\<rparr>) \<and>
   \<not> starts_here VisualToken (TextIterator ''${1:a}b'' \<lparr>line = 0, col = 0\<rparr>) \<and>
   \<not> starts_here TransformationToken (TextIterator ''${1:a}b'' \<lparr>line = 0, col = 0\<rparr>) \<and>
   starts_here TabStopToken (TextIterator ''${1:a}b'' \<lparr>line = 0, col = 0\<rparr>) \<and>
   starts_here MirrorToken (TextIterator ''$1'' \<lparr>line = 0, col = 0\<rparr>) \<and>
   Token_init (token_parse TabStopToken) (TextIterator ''${1:a}b'' \<lparr>line = 0, col = 0\<rparr>) [] =
     Inr (\<lparr>initial_text = ''a'', tok_start = \<lparr>line = 0, col = 0\<rparr>,
           tok_end = \<lparr>line = 0, col = 6\<rparr>, attrs = TabStop 1\<rparr>,
          \<lparr>s_text = ''${1:a}b'', s_line = 0, s_col = 6, s_idx = 6\<rparr>) \<and>
   tokenize_loop (TextIterator ''${1:a}b'' \<lparr>line = 0, col = 0\<rparr>) [] =
     (Yielded \<lparr>initial_text = ''a'', tok_start = \<lparr>line = 0, col = 0\<rparr>,
               tok_end = \<lparr>line = 0, col = 6\<rparr>, attrs = TabStop 1\<rparr> ''${1:a}'' #
      fst (tokenize_loop \<lparr>s_text = ''${1:a}b'', s_line = 0, s_col = 6, s_idx = 6\<rparr> []),
      snd (tokenize_loop \<lparr>s_text = ''${1:a}b'', s_line = 0, s_col = 6, s_idx = 6\<rparr> [])) \<and>
   list_all (\<lambda>c. \<not> starts_here c \<lparr>s_text = ''${1:a}b'', s_line = 0, s_col = 6, s_idx = 6\<rparr>)
     ALLOWED_TOKENS \<and>
   tokenize_loop \<lparr>s_text = ''${1:a}b'', s_line = 0, s_col = 6, s_idx = 6\<rparr> [] =
     (Discarded CHR ''b'' #
      fst (tokenize_loop \<lparr>s_text = ''${1:a}b'', s_line = 0, s_col = 7, s_idx = 7\<rparr> []),
      snd (tokenize_loop \<lparr>s_text = ''${1:a}b'', s_line = 0, s_col = 7, s_idx = 7\<rparr> [])) \<and>
   starts_here TabStopToken (TextIterator ''${2:x'' \<lparr>line = 0, col = 0\<rparr>) \<and>
   Token_init (token_parse TabStopToken) (TextIterator ''${2:x'' \<lparr>line = 0, col = 0\<rparr>) [] =
     Inl (StopIteration, \<lparr>s_text = ''${2:x'', s_line = 0, s_col = 5, s_idx = 5\<rparr>) \<and>
   tokenize_loop (TextIterator ''${2:x'' \<lparr>line = 0, col = 0\<rparr>) [] =
     ([Abandoned ''${2:x'',
       Yielded \<lparr>initial_text = [], tok_start = \<lparr>line = 0, col = 5\<rparr>,
                tok_end = \<lparr>line = 0, col = 5\<rparr>, attrs = EndOfText\<rparr> []], None) \<and>
   tokenize ''${2:x'' [] \<lparr>line = 0, col = 0\<rparr> =
     ([\<lparr>initial_text = [], tok_start = \<lparr>line = 0, col = 5\<rparr>,
         tok_end = \<lparr>line = 0, col = 5\<rparr>, attrs = EndOfText\<rparr>], None) \<and>
   \<not> starts_here EscapeCharToken (TextIterator ''${VISUAL:q/r'' \<lparr>line = 0, col = 0\<rparr>) \<and>
   starts_here VisualToken (TextIterator ''${VISUAL:q/r'' \<lparr>line = 0, col = 0\<rparr>) \<and>
   Token_init (token_parse VisualToken) (TextIterator ''${VISUAL:q/r'' \<lparr>line = 0, col = 0\<rparr>) [] =
     Inl (malformed_transformation,
          \<lparr>s_text = ''${VISUAL:q/r'', s_line = 0, s_col = 12, s_idx = 12\<rparr>) \<and>
   malformed_transformation \<noteq> StopIteration \<and>
   tokenize_loop (TextIterator ''${VISUAL:q/r'' \<lparr>line = 0, col = 0\<rparr>) [] =
     ([Abandoned ''${VISUAL:q/r''], Some malformed_transformation) \<and>
   tokenize ''${VISUAL:q/r'' [] \<lparr>line = 0, col = 0\<rparr> = ([], Some malformed_transformation)"
proof -
  let ?t = "''${1:a}b''"
  let ?s0 = "TextIterator ?t \<lparr>line = 0, col = 0\<rparr>"
  let ?s6 = "\<lparr>s_text = ?t, s_line = 0, s_col = 6, s_idx = 6\<rparr>"
  let ?s7 = "\<lparr>s_text = ?t, s_line = 0, s_col = 7, s_idx = 7\<rparr>"
  let ?tok = "\<lparr>initial_text = ''a'', tok_start = \<lparr>line = 0, col = 0\<rparr>,
               tok_end = \<lparr>line = 0, col = 6\<rparr>, attrs = TabStop 1\<rparr>"
  let ?u0 = "TextIterator ''${2:x'' \<lparr>line = 0, col = 0\<rparr>"
  let ?u5 = "\<lparr>s_text = ''${2:x'', s_line = 0, s_col = 5, s_idx = 5\<rparr>"
  let ?v0 = "TextIterator ''${VISUAL:q/r'' \<lparr>line = 0, col = 0\<rparr>"
  let ?v12 = "\<lparr>s_text = ''${VISUAL:q/r'', s_line = 0, s_col = 12, s_idx = 12\<rparr>"
  have al: "ALLOWED_TOKENS = [EscapeCharToken, VisualToken, TransformationToken] @
      TabStopToken # [MirrorToken, PythonCodeToken, VimLCodeToken, ShellCodeToken]"
    by (simp add: ALLOWED_TOKENS_def)
  have al1: "ALLOWED_TOKENS = [EscapeCharToken] @ VisualToken #
      [TransformationToken, TabStopToken, MirrorToken, PythonCodeToken, VimLCodeToken,
       ShellCodeToken]"
    by (simp add: ALLOWED_TOKENS_def)
  have no: "\<not> starts_here EscapeCharToken ?s0 \<and> \<not> starts_here VisualToken ?s0 \<and>
      \<not> starts_here TransformationToken ?s0"
    by code_simp
  have yes: "starts_here TabStopToken ?s0" by code_simp
  have mir: "starts_here MirrorToken (TextIterator ''$1'' \<lparr>line = 0, col = 0\<rparr>)" by code_simp
  have ti: "Token_init (token_parse TabStopToken) ?s0 [] = Inr (?tok, ?s6)" by code_simp
  have sp: "span ?s0 ?s6 = ''${1:a}''" by code_simp
  have none: "list_all (\<lambda>c. \<not> starts_here c ?s6) ALLOWED_TOKENS" by code_simp
  have nx: "stream_next ?s6 = Inr (CHR ''b'', ?s7)" by code_simp
  have more: "s_idx ?s6 < length (s_text ?s6)" by simp
  note c2a = C2_priority_order [of "[EscapeCharToken, VisualToken, TransformationToken]"
      TabStopToken "[MirrorToken, PythonCodeToken, VimLCodeToken, ShellCodeToken]" ?s0 "[]"]
  note c2b = C2_priority_order [of "[]" EscapeCharToken "tl ALLOWED_TOKENS" ?s6 "[]"]
  from c2a al no yes ti
  have y: "tokenize_loop ?s0 [] =
      (Yielded ?tok (span ?s0 ?s6) # fst (tokenize_loop ?s6 []), snd (tokenize_loop ?s6 []))"
    by simp
  from none have none': "\<forall>c\<in>set ALLOWED_TOKENS. \<not> starts_here c ?s6"
    by (simp add: list_all_iff)
  from c2b none' more obtain s2 where
    "stream_next ?s6 = Inr (s_text ?s6 ! s_idx ?s6, s2)"
    "tokenize_loop ?s6 [] =
       (Discarded (s_text ?s6 ! s_idx ?s6) # fst (tokenize_loop s2 []),
        snd (tokenize_loop s2 []))"
    by blast
  with nx have d: "tokenize_loop ?s6 [] =
      (Discarded CHR ''b'' # fst (tokenize_loop ?s7 []), snd (tokenize_loop ?s7 []))"
    by simp
  have uno: "\<not> starts_here EscapeCharToken ?u0 \<and> \<not> starts_here VisualToken ?u0 \<and>
      \<not> starts_here TransformationToken ?u0"
    by code_simp
  have uyes: "starts_here TabStopToken ?u0" by code_simp
  have uti: "Token_init (token_parse TabStopToken) ?u0 [] = Inl (StopIteration, ?u5)"
    by code_simp
  have usp: "span ?u0 ?u5 = ''${2:x''" by code_simp
  have upos: "end_of_text (stream_pos ?u5) =
      \<lparr>initial_text = [], tok_start = \<lparr>line = 0, col = 5\<rparr>,
         tok_end = \<lparr>line = 0, col = 5\<rparr>, attrs = EndOfText\<rparr>"
    by code_simp
  have ureach: "driver_reaches [] (TextIterator ''${2:x'' \<lparr>line = 0, col = 0\<rparr>) [] ?u0"
    by (rule driver_reaches.here)
  note c2c = C2_priority_order [of "[EscapeCharToken, VisualToken, TransformationToken]"
      TabStopToken "[MirrorToken, PythonCodeToken, VimLCodeToken, ShellCodeToken]" ?u0 "[]"
      "''${2:x''" "\<lparr>line = 0, col = 0\<rparr>" "[]"]
  from c2c al uno uyes uti
  have ul: "tokenize_loop ?u0 [] =
      ([Abandoned (span ?u0 ?u5), Yielded (end_of_text (stream_pos ?u5)) []], None)"
    by simp
  from c2c ureach
  have "tokenize ''${2:x'' [] \<lparr>line = 0, col = 0\<rparr> =
      (tokens_of [] @ tokens_of (fst (tokenize_loop ?u0 [])), snd (tokenize_loop ?u0 []))"
    by blast
  with ul have ut: "tokenize ''${2:x'' [] \<lparr>line = 0, col = 0\<rparr> =
      ([end_of_text (stream_pos ?u5)], None)"
    by simp
  have vno: "\<not> starts_here EscapeCharToken ?v0" by code_simp
  have vyes: "starts_here VisualToken ?v0" by code_simp
  have vti: "Token_init (token_parse VisualToken) ?v0 [] = Inl (malformed_transformation, ?v12)"
    by code_simp
  have vsp: "span ?v0 ?v12 = ''${VISUAL:q/r''" by code_simp
  have vreach: "driver_reaches [] (TextIterator ''${VISUAL:q/r'' \<lparr>line = 0, col = 0\<rparr>) [] ?v0"
    by (rule driver_reaches.here)
  note c2d = C2_priority_order [of "[EscapeCharToken]" VisualToken
      "[TransformationToken, TabStopToken, MirrorToken, PythonCodeToken, VimLCodeToken,
        ShellCodeToken]" ?v0 "[]" "''${VISUAL:q/r''" "\<lparr>line = 0, col = 0\<rparr>" "[]"]
  from c2d al1 vno vyes vti
  have vl: "tokenize_loop ?v0 [] = ([Abandoned (span ?v0 ?v12)], Some malformed_transformation)"
    by simp
  from c2d vreach
  have "tokenize ''${VISUAL:q/r'' [] \<lparr>line = 0, col = 0\<rparr> =
      (tokens_of [] @ tokens_of (fst (tokenize_loop ?v0 [])), snd (tokenize_loop ?v0 []))"
    by blast
  with vl have vt: "tokenize ''${VISUAL:q/r'' [] \<lparr>line = 0, col = 0\<rparr> =
      ([], Some malformed_transformation)"
    by simp
  from al no yes mir ti y sp none d uyes uti ul usp upos ut vno vyes vti vl vsp vt
  show ?thesis by simp
qed

subsection \<open>The TabStop token\<close>

text \<open>
  Two notions used to state the claim: the number a run of digits denotes, and texts whose
  unescaped braces are balanced. \<open>balanced_from d t\<close> reads \<open>t\<close> with \<open>d\<close> braces open: a
  backslash followed by a brace is skipped as a pair, an opening brace opens one more,
  a closing brace closes one that is open, and none is open at the end.
\<close>

definition decimal :: "string \<Rightarrow> int" where
  "decimal ds = foldl (\<lambda>n c. 10 * n + digit_value c) 0 ds"

fun balanced_from :: "nat \<Rightarrow> string \<Rightarrow> bool" where
  "balanced_from d [] = (d = 0)"
| "balanced_from d [c] =
     (if c = CHR ''{'' then False else if c = CHR ''}'' then d = 1 else d = 0)"
| "balanced_from d (c # e # cs) =
     (if c = CHR 0x5C \<and> e \<in> set ''{}'' then balanced_from d cs
      else if c = CHR ''{'' then balanced_from (Suc d) (e # cs)
      else if c = CHR ''}'' then 0 < d \<and> balanced_from (d - 1) (e # cs)
      else balanced_from d (e # cs))"

definition balanced :: "string \<Rightarrow> bool" where
  "balanced t = balanced_from 0 t"

lemma balanced_from_step:
  "\<not> (c = CHR 0x5C \<and> (\<exists>e r. cs = e # r \<and> e \<in> set ''{}'')) \<Longrightarrow>
     balanced_from d (c # cs) =
       (if c = CHR ''{'' then balanced_from (Suc d) cs
        else if c = CHR ''}'' then 0 < d \<and> balanced_from (d - 1) cs
        else balanced_from d cs)"
  by (cases cs) auto

lemma next_upcoming:
  "upcoming s = c # r \<Longrightarrow>
     \<exists>s'. stream_next s = Inr (c, s') \<and> upcoming s' = r \<and> advanced s s' \<and>
          s_idx s' = s_idx s + 1"
proof -
  assume u: "upcoming s = c # r"
  then obtain s' where n: "stream_next s = Inr (c, s')"
    by (simp add: stream_next_upcoming)
  from stream_next_Inr [OF n] have a: "advanced s s'" and i: "s_idx s' = Suc (s_idx s)"
    by simp_all
  from a have "s_text s' = s_text s" by (simp add: advanced_def)
  with i u have "upcoming s' = r"
    by (simp add: upcoming_def drop_Suc tl_drop [symmetric])
  with n a i show ?thesis by simp
qed

lemma escape_upcoming:
  "EscapeCharToken_starts_here s chars \<longleftrightarrow>
     (\<exists>e r. upcoming s = CHR 0x5C # e # r \<and> e \<in> set chars)"
proof (cases "upcoming s")
  case Nil
  then show ?thesis by (simp add: EscapeCharToken_starts_here_def peek_2)
next
  case (Cons a r)
  then show ?thesis
    by (cases r) (auto simp: EscapeCharToken_starts_here_def peek_2)
qed

lemma closing_brace_loop:
  "parse_till_closing_brace_loop s rv n = Inr (t, s') \<Longrightarrow> 1 \<le> n \<Longrightarrow>
     \<exists>u. t = rv @ u \<and> upcoming s = u @ CHR ''}'' # upcoming s' \<and>
         balanced_from (nat (n - 1)) u"
proof (induction s rv n rule: parse_till_closing_brace_loop.induct)
  case (1 s rv n)
  show ?case
  proof (cases "EscapeCharToken_starts_here s ''{}''")
    case True
    then obtain e r where u: "upcoming s = CHR 0x5C # e # r" and e: "e \<in> set ''{}''"
      by (auto simp: escape_upcoming)
    from next_upcoming [OF u] obtain s1 where
      n1: "stream_next s = Inr (CHR 0x5C, s1)" and u1: "upcoming s1 = e # r" by blast
    from next_upcoming [OF u1] obtain s2 where
      n2: "stream_next s1 = Inr (e, s2)" and u2: "upcoming s2 = r" by blast
    from "1.prems"(1) True n1 n2
    have r: "parse_till_closing_brace_loop s2 (rv @ [CHR 0x5C, e]) n = Inr (t, s')"
      by (subst (asm) parse_till_closing_brace_loop.simps) simp
    from "1.IH"(1) [OF True n1 n2 r "1.prems"(2)] obtain u' where
      t: "t = (rv @ [CHR 0x5C, e]) @ u'" and up: "upcoming s2 = u' @ CHR ''}'' # upcoming s'"
      and b: "balanced_from (nat (n - 1)) u'"
      by blast
    from e b have "balanced_from (nat (n - 1)) (CHR 0x5C # e # u')" by simp
    with t up u u2 show ?thesis
      by (intro exI [of _ "CHR 0x5C # e # u'"]) simp
  next
    case False
    from "1.prems"(1) False obtain c s1 where n1: "stream_next s = Inr (c, s1)"
      by (subst (asm) parse_till_closing_brace_loop.simps)
         (auto simp: rbind_def split: sum.splits)
    then obtain r where u: "upcoming s = c # r"
      by (cases "upcoming s") (auto simp: stream_next_upcoming)
    from next_upcoming [OF u] n1 have u1: "upcoming s1 = r" by auto
    let ?n1 = "if c = CHR ''{'' then n + 1 else if c = CHR ''}'' then n - 1 else n"
    show ?thesis
    proof (cases "?n1 = 0")
      case True
      with "1.prems"(1) False n1 have "t = rv" "s' = s1"
        by (subst (asm) parse_till_closing_brace_loop.simps, simp add: Let_def)+
      moreover from True "1.prems"(2) have "c = CHR ''}''" "n = 1"
        by (auto split: if_splits)
      ultimately show ?thesis using u u1 by simp
    next
      case nz: False
      with "1.prems"(1) False n1
      have r: "parse_till_closing_brace_loop s1 (rv @ [c]) ?n1 = Inr (t, s')"
        by (subst (asm) parse_till_closing_brace_loop.simps) (simp add: Let_def)
      from nz "1.prems"(2) have ge: "1 \<le> ?n1" by (auto split: if_splits)
      from "1.IH"(2) [OF False n1 refl nz r ge] obtain u' where
        t: "t = (rv @ [c]) @ u'" and up: "upcoming s1 = u' @ CHR ''}'' # upcoming s'"
        and b: "balanced_from (nat (?n1 - 1)) u'"
        by blast
      from False u u1 up have ne: "\<not> (c = CHR 0x5C \<and> (\<exists>e r. u' = e # r \<and> e \<in> set ''{}''))"
        by (cases u') (auto simp: escape_upcoming)
      have "balanced_from (nat (n - 1)) (c # u')"
        using b nz "1.prems"(2)
        by (subst balanced_from_step [OF ne])
           (auto simp: nat_diff_distrib Suc_nat_eq_nat_zadd1 nat_add_distrib numeral_2_eq_2
              split: if_splits)
      with t up u u1 show ?thesis
        by (intro exI [of _ "c # u'"]) simp
    qed
  qed
qed


lemma digit_cond:
  "(case peek s 1 of None \<Rightarrow> False | Some c \<Rightarrow> c \<noteq> [] \<and> py_in c string_digits) =
     (case upcoming s of [] \<Rightarrow> False | c # _ \<Rightarrow> re_digit c)"
  by (cases "upcoming s") (auto simp: peek_one string_digits_def re_digit_def)

lemma number_loop_upcoming:
  "upcoming s = ds @ rest \<Longrightarrow> list_all re_digit ds \<Longrightarrow>
   (case rest of [] \<Rightarrow> True | c # _ \<Rightarrow> \<not> re_digit c) \<Longrightarrow>
     \<exists>s'. parse_number_loop s rv = Inr (rv @ ds, s') \<and> upcoming s' = rest \<and>
          advanced s s' \<and> s_idx s' = s_idx s + length ds"
proof (induction ds arbitrary: s rv)
  case Nil
  then have "\<not> (case upcoming s of [] \<Rightarrow> False | c # _ \<Rightarrow> re_digit c)"
    by (auto split: list.splits)
  then have "parse_number_loop s rv = Inr (rv, s)"
    by (subst parse_number_loop.simps) (simp add: digit_cond)
  with Nil show ?case by simp
next
  case (Cons d ds)
  from Cons.prems have u: "upcoming s = d # (ds @ rest)" and d: "re_digit d"
    and ds: "list_all re_digit ds"
    by simp_all
  from next_upcoming [OF u] obtain s1 where
    n1: "stream_next s = Inr (d, s1)" and u1: "upcoming s1 = ds @ rest"
    and a1: "advanced s s1" and i1: "s_idx s1 = s_idx s + 1"
    by blast
  from Cons.IH [OF u1 ds Cons.prems(3), of "rv @ [d]"] obtain s' where
    r: "parse_number_loop s1 (rv @ [d]) = Inr ((rv @ [d]) @ ds, s')"
    and u': "upcoming s' = rest" and a': "advanced s1 s'"
    and i': "s_idx s' = s_idx s1 + length ds"
    by blast
  from u d have "parse_number_loop s rv = parse_number_loop s1 (rv @ [d])"
    by (subst parse_number_loop.simps) (simp add: digit_cond n1)
  with r u' advanced_trans [OF a1 a'] i1 i' show ?case by simp
qed

lemma parse_number_upcoming:
  "upcoming s = ds @ rest \<Longrightarrow> ds \<noteq> [] \<Longrightarrow> list_all re_digit ds \<Longrightarrow>
   (case rest of [] \<Rightarrow> True | c # _ \<Rightarrow> \<not> re_digit c) \<Longrightarrow>
     \<exists>s'. parse_number s = Inr (decimal ds, s') \<and> upcoming s' = rest \<and>
          advanced s s' \<and> s_idx s' = s_idx s + length ds"
proof -
  assume u: "upcoming s = ds @ rest" and ne: "ds \<noteq> []" and ds: "list_all re_digit ds"
    and c: "case rest of [] \<Rightarrow> True | c # _ \<Rightarrow> \<not> re_digit c"
  from number_loop_upcoming [OF u ds c, of "[]"] obtain s' where
    "parse_number_loop s [] = Inr (ds, s')" "upcoming s' = rest" "advanced s s'"
    "s_idx s' = s_idx s + length ds"
    by auto
  with ne show ?thesis by (simp add: parse_number_def py_int_def decimal_def)
qed

lemma TabStopToken_parse_upcoming:
  assumes u: "upcoming s = ''${'' @ ds @ c # rest" and ne: "ds \<noteq> []"
    and ds: "list_all re_digit ds" and c: "c \<in> set '':}''"
  shows "\<exists>s1. advanced s s1 \<and>
           s_idx s1 = s_idx s + 2 + length ds + (if c = CHR '':'' then 1 else 0) \<and>
           upcoming s1 = (if c = CHR '':'' then rest else c # rest) \<and>
           TabStopToken_parse s indent =
             rbind (parse_till_closing_brace s1) (\<lambda>text s'. Inr ((text, TabStop (decimal ds)), s'))"
proof -
  from u have u0: "upcoming s = CHR ''$'' # (CHR ''{'' # ds @ c # rest)" by simp
  from next_upcoming [OF u0] obtain sa where
    na: "stream_next s = Inr (CHR ''$'', sa)" and ua: "upcoming sa = CHR ''{'' # ds @ c # rest"
    and aa: "advanced s sa" and ia: "s_idx sa = s_idx s + 1"
    by blast
  from next_upcoming [OF ua] obtain sb where
    nb: "stream_next sa = Inr (CHR ''{'', sb)" and ub: "upcoming sb = ds @ c # rest"
    and ab: "advanced sa sb" and ib: "s_idx sb = s_idx sa + 1"
    by blast
  from c have nd: "case c # rest of [] \<Rightarrow> True | c # _ \<Rightarrow> \<not> re_digit c"
    by (auto simp: re_digit_def)
  from parse_number_upcoming [OF ub ne ds nd] obtain sc where
    pn: "parse_number sb = Inr (decimal ds, sc)" and uc: "upcoming sc = c # rest"
    and ac: "advanced sb sc" and ic: "s_idx sc = s_idx sb + length ds"
    by blast
  note a3 = advanced_trans [OF advanced_trans [OF aa ab] ac]
  have pk: "peek sc 1 = Some [c]" using uc by (simp add: peek_one)
  show ?thesis
  proof (cases "c = CHR '':''")
    case True
    from next_upcoming [OF uc] obtain sd where
      nd: "stream_next sc = Inr (c, sd)" and ud: "upcoming sd = rest"
      and ad: "advanced sc sd" and idd: "s_idx sd = s_idx sc + 1"
      by blast
    have "TabStopToken_parse s indent =
        rbind (parse_till_closing_brace sd) (\<lambda>text s'. Inr ((text, TabStop (decimal ds)), s'))"
      using True by (simp add: TabStopToken_parse_def na nb pn pk nd)
    with True ud advanced_trans [OF a3 ad] ia ib ic idd show ?thesis
      by (intro exI [of _ sd]) simp
  next
    case False
    have "TabStopToken_parse s indent =
        rbind (parse_till_closing_brace sc) (\<lambda>text s'. Inr ((text, TabStop (decimal ds)), s'))"
      using False by (simp add: TabStopToken_parse_def na nb pn pk)
    with False uc a3 ia ib ic show ?thesis
      by (intro exI [of _ sc]) simp
  qed
qed

lemma takeWhile_digits:
  "list_all re_digit ds \<Longrightarrow> \<not> re_digit c \<Longrightarrow>
     takeWhile re_digit (ds @ c # r) = ds \<and> dropWhile re_digit (ds @ c # r) = c # r"
  by (induction ds) simp_all

lemma TabStopToken_starts_here_iff:
  "TabStopToken_starts_here s \<longleftrightarrow>
     (\<exists>ds c rest. upcoming s = ''${'' @ ds @ c # rest \<and> ds \<noteq> [] \<and> list_all re_digit ds \<and>
        c \<in> set '':}'' \<and> length ds \<le> 7)"
proof
  assume "TabStopToken_starts_here s"
  then obtain r0 r1 where r0: "re_literal ''${'' (take 10 (upcoming s)) = Some r0"
    and r1: "re_digits r0 = Some r1" and cl: "re_class (\<lambda>c. c \<in> set '':}'') r1"
    by (auto simp: TabStopToken_starts_here_def TabStopToken_CHECK_def peek_10
        split: option.splits)
  from re_literal_prefix [OF r0] obtain r where u: "upcoming s = ''${'' @ r" by auto
  with r0 have r0': "r0 = take 8 r" by (simp add: re_literal_def)
  let ?ds = "takeWhile re_digit (take 8 r)"
  from r1 r0' have ne: "?ds \<noteq> []" and r1': "r1 = dropWhile re_digit (take 8 r)"
    by (auto simp: re_digits_def split: if_splits)
  from cl r1' obtain c x where dw: "dropWhile re_digit (take 8 r) = c # x"
    and c: "c \<in> set '':}''"
    by (auto simp: re_class_def split: list.splits)
  have "take 8 r = ?ds @ c # x" using dw takeWhile_dropWhile_id [of re_digit "take 8 r"]
    by simp
  then have "r = (?ds @ c # x) @ drop 8 r" by (metis append_take_drop_id)
  then have r: "r = ?ds @ c # (x @ drop 8 r)" by simp
  from \<open>take 8 r = ?ds @ c # x\<close>
  have "length (take 8 r) = length (?ds @ c # x)" by (rule arg_cong)
  then have len: "length ?ds \<le> 7" by (simp add: min_def split: if_splits)
  have dig: "list_all re_digit ?ds"
    by (simp add: list_all_iff) (meson set_takeWhileD)
  from u r ne c len dig show "\<exists>ds c rest. upcoming s = ''${'' @ ds @ c # rest \<and> ds \<noteq> [] \<and>
      list_all re_digit ds \<and> c \<in> set '':}'' \<and> length ds \<le> 7"
    by (intro exI [of _ ?ds] exI [of _ c] exI [of _ "x @ drop 8 r"]) simp
next
  assume "\<exists>ds c rest. upcoming s = ''${'' @ ds @ c # rest \<and> ds \<noteq> [] \<and>
      list_all re_digit ds \<and> c \<in> set '':}'' \<and> length ds \<le> 7"
  then obtain ds c rest where u: "upcoming s = ''${'' @ ds @ c # rest" and ne: "ds \<noteq> []"
    and dig: "list_all re_digit ds" and c: "c \<in> set '':}''" and len: "length ds \<le> 7"
    by blast
  from c have nd: "\<not> re_digit c" by (auto simp: re_digit_def)
  from u len have t: "take 10 (upcoming s) = ''${'' @ ds @ c # take (7 - length ds) rest"
    by (simp add: take_Cons')
  show "TabStopToken_starts_here s"
    using takeWhile_digits [OF dig nd, of "take (7 - length ds) rest"] ne c
    by (simp add: TabStopToken_starts_here_def TabStopToken_CHECK_def peek_10 t
        re_literal_def re_digits_def re_class_def)
qed


lemma at_end:
  "length (s_text s) \<le> s_idx s \<Longrightarrow>
     tokenize_loop s indent = ([Yielded (end_of_text (stream_pos s)) []], None)"
proof -
  assume e: "length (s_text s) \<le> s_idx s"
  then have u: "upcoming s = []" by (simp add: upcoming_def)
  have "\<forall>c\<in>set ALLOWED_TOKENS. \<not> starts_here c s"
    by (simp add: ALLOWED_TOKENS_def EscapeCharToken_starts_here_def peek_2 peek_10 peek_one
        peek_many u VisualToken_starts_here_def VisualToken_CHECK_def
        TransformationToken_starts_here_def TransformationToken_CHECK_def
        TabStopToken_starts_here_def TabStopToken_CHECK_def MirrorToken_starts_here_def
        MirrorToken_CHECK_def PythonCodeToken_starts_here_def PythonCodeToken_CHECK_def
        VimLCodeToken_starts_here_def VimLCodeToken_CHECK_def ShellCodeToken_starts_here_def
        re_literal_def)
  from try_tokens_no_match [OF this]
  have tr: "try_tokens ALLOWED_TOKENS s indent = Inr (None, s)" .
  from e have nx: "stream_next s = Inl (StopIteration, s)" by (simp add: stream_next_def)
  from loop_stop [OF tr nx] show ?thesis by simp
qed

lemma tabstop_example_parse:
  "try_tokens ALLOWED_TOKENS
     \<lparr>s_text = ''${1:{nested}}'', s_line = l, s_col = c, s_idx = 0\<rparr> indent =
     Inr (Some \<lparr>initial_text = ''{nested}'', tok_start = \<lparr>line = l, col = c\<rparr>,
                tok_end = \<lparr>line = l, col = c + 13\<rparr>, attrs = TabStop 1\<rparr>,
          \<lparr>s_text = ''${1:{nested}}'', s_line = l, s_col = c + 13, s_idx = 13\<rparr>)"
  apply (simp add: ALLOWED_TOKENS_def EscapeCharToken_starts_here_def peek_def stream_peek_def
     VisualToken_starts_here_def VisualToken_CHECK_def re_literal_def re_class_def
     TransformationToken_starts_here_def TransformationToken_CHECK_def re_digits_def
     re_digit_def TabStopToken_starts_here_def TabStopToken_CHECK_def py_getitem_def)
  apply (simp add: Token_init_def TabStopToken_parse_def stream_next_def Let_def stream_pos_def
     parse_number_def py_int_def digit_value_def)
  apply (subst parse_number_loop.simps)
  apply (simp add: peek_def stream_peek_def py_getitem_def string_digits_def stream_next_def
     Let_def)
  apply (subst parse_number_loop.simps)
  apply (simp add: peek_def stream_peek_def py_getitem_def string_digits_def stream_next_def
     Let_def py_int_def digit_value_def parse_till_closing_brace_def)
  apply (simp add: parse_till_closing_brace_loop.simps EscapeCharToken_starts_here_def peek_def
     stream_peek_def stream_next_def Let_def)
  done

lemma tabstop_example:
  "tokenize ''${1:{nested}}'' indent offset =
     ([\<lparr>initial_text = ''{nested}'', tok_start = \<lparr>line = line offset, col = col offset\<rparr>,
         tok_end = \<lparr>line = line offset, col = col offset + 13\<rparr>, attrs = TabStop 1\<rparr>,
       \<lparr>initial_text = [], tok_start = \<lparr>line = line offset, col = col offset + 13\<rparr>,
         tok_end = \<lparr>line = line offset, col = col offset + 13\<rparr>, attrs = EndOfText\<rparr>],
      None)"
proof -
  let ?s13 = "\<lparr>s_text = ''${1:{nested}}'', s_line = line offset, s_col = col offset + 13,
               s_idx = 13\<rparr>"
  have "tokenize_loop ?s13 indent = ([Yielded (end_of_text (stream_pos ?s13)) []], None)"
    by (rule at_end) simp
  with loop_yield [OF tabstop_example_parse [of "line offset" "col offset" indent]]
  show ?thesis
    by (simp add: tokenize_def tokenize_events_def TextIterator_def end_of_text_def
        stream_pos_def)
qed

lemma string_digits_re_digit:
  "list_all (\<lambda>d. d \<in> set string_digits) ds \<Longrightarrow> list_all re_digit ds"
  by (simp add: list_all_iff re_digit_def string_digits_def)

text \<open>
  C5 does not hold as worded: the recognizer looks at the next ten characters only. On
  \<^verbatim>\<open>${12345678}\<close> the input is \<^verbatim>\<open>${\<close>, eight decimal digits and \<^verbatim>\<open>}\<close>, the
  predicate does not match, and no TabStop token is produced.
\<close>

theorem C5_counterexample:
  "upcoming (TextIterator ''${12345678}'' \<lparr>line = 0, col = 0\<rparr>) =
     ''${'' @ ''12345678'' @ CHR ''}'' # [] \<and>
   list_all re_digit ''12345678'' \<and>
   \<not> TabStopToken_starts_here (TextIterator ''${12345678}'' \<lparr>line = 0, col = 0\<rparr>) \<and>
   tokenize ''${12345678}'' [] \<lparr>line = 0, col = 0\<rparr> =
     ([\<lparr>initial_text = [], tok_start = \<lparr>line = 0, col = 11\<rparr>,
         tok_end = \<lparr>line = 0, col = 11\<rparr>, attrs = EndOfText\<rparr>], None)"
  by code_simp

text \<open>
  C5, amended. The predicate and the parse read digits in two ways, the pattern by its
  class \<^verbatim>\<open>\d\<close> and \<^verbatim>\<open>_parse_number\<close> by membership in \<^verbatim>\<open>string.digits\<close>, and
  the statement keeps them apart. The TabStop recognizer matches exactly when the upcoming
  input is \<^verbatim>\<open>${\<close>, one to seven characters of the class \<^verbatim>\<open>\d\<close> and then \<^verbatim>\<open>:\<close>
  or \<^verbatim>\<open>}\<close> (the whole of it within the ten characters the predicate looks at). On an
  input of that form whose digits are characters of \<^verbatim>\<open>string.digits\<close>, the digits 0
  to 9, the recognizer matches and its parse consumes \<^verbatim>\<open>${\<close>, the digits, read as the
  number, and the \<^verbatim>\<open>:\<close> if there is one, and takes \<^verbatim>\<open>initial_text\<close> from the
  balanced-brace scan of what follows. The text that scan returns is the input up to the
  closing brace it consumed, and its unescaped braces are balanced. Tokenizing
  \<^verbatim>\<open>${1:{nested}}\<close> yields the TabStop token with number 1 and initial text
  \<^verbatim>\<open>{nested}\<close>, and then EndOfText. (On the characters of this model the two ways of
  reading a digit agree; what the parse does with a character of \<^verbatim>\<open>\d\<close> that is not
  in \<^verbatim>\<open>string.digits\<close>, which exists only beyond code point 255, is not stated.)
\<close>

theorem C5_tabstop:
  "(TabStopToken_starts_here s \<longleftrightarrow>
      (\<exists>ds c rest. upcoming s = ''${'' @ ds @ c # rest \<and> ds \<noteq> [] \<and> list_all re_digit ds \<and>
         c \<in> set '':}'' \<and> length ds \<le> 7)) \<and>
   (upcoming s = ''${'' @ ds @ c # rest \<and> ds \<noteq> [] \<and>
    list_all (\<lambda>d. d \<in> set string_digits) ds \<and> length ds \<le> 7 \<and> c \<in> set '':}'' \<longrightarrow>
      TabStopToken_starts_here s \<and>
      (\<exists>s1. advanced s s1 \<and>
         s_idx s1 = s_idx s + 2 + length ds + (if c = CHR '':'' then 1 else 0) \<and>
         upcoming s1 = (if c = CHR '':'' then rest else c # rest) \<and>
         TabStopToken_parse s indent =
           rbind (parse_till_closing_brace s1)
             (\<lambda>text s'. Inr ((text, TabStop (decimal ds)), s')))) \<and>
   (parse_till_closing_brace s2 = Inr (t, s3) \<longrightarrow>
      upcoming s2 = t @ CHR ''}'' # upcoming s3 \<and> balanced t) \<and>
   tokenize ''${1:{nested}}'' indent' offset =
     ([\<lparr>initial_text = ''{nested}'', tok_start = \<lparr>line = line offset, col = col offset\<rparr>,
         tok_end = \<lparr>line = line offset, col = col offset + 13\<rparr>, attrs = TabStop 1\<rparr>,
       \<lparr>initial_text = [], tok_start = \<lparr>line = line offset, col = col offset + 13\<rparr>,
         tok_end = \<lparr>line = line offset, col = col offset + 13\<rparr>, attrs = EndOfText\<rparr>],
      None)"
proof (intro conjI impI)
  show "TabStopToken_starts_here s \<longleftrightarrow>
      (\<exists>ds c rest. upcoming s = ''${'' @ ds @ c # rest \<and> ds \<noteq> [] \<and> list_all re_digit ds \<and>
         c \<in> set '':}'' \<and> length ds \<le> 7)"
    by (rule TabStopToken_starts_here_iff)
next
  assume h: "upcoming s = ''${'' @ ds @ c # rest \<and> ds \<noteq> [] \<and>
    list_all (\<lambda>d. d \<in> set string_digits) ds \<and> length ds \<le> 7 \<and> c \<in> set '':}''"
  then have dig: "list_all re_digit ds" by (simp add: string_digits_re_digit)
  from h dig have "\<exists>ds c rest. upcoming s = ''${'' @ ds @ c # rest \<and> ds \<noteq> [] \<and>
      list_all re_digit ds \<and> c \<in> set '':}'' \<and> length ds \<le> 7"
    by (intro exI [of _ ds] exI [of _ c] exI [of _ rest]) simp
  then show "TabStopToken_starts_here s" by (simp only: TabStopToken_starts_here_iff)
  from h dig show "\<exists>s1. advanced s s1 \<and>
         s_idx s1 = s_idx s + 2 + length ds + (if c = CHR '':'' then 1 else 0) \<and>
         upcoming s1 = (if c = CHR '':'' then rest else c # rest) \<and>
         TabStopToken_parse s indent =
           rbind (parse_till_closing_brace s1)
             (\<lambda>text s'. Inr ((text, TabStop (decimal ds)), s'))"
    by (intro TabStopToken_parse_upcoming) simp_all
next
  assume p: "parse_till_closing_brace s2 = Inr (t, s3)"
  from closing_brace_loop [of s2 "[]" 1 t s3] p
  show "upcoming s2 = t @ CHR ''}'' # upcoming s3" and "balanced t"
    by (simp_all add: parse_till_closing_brace_def balanced_def)
next
  show "tokenize ''${1:{nested}}'' indent' offset =
     ([\<lparr>initial_text = ''{nested}'', tok_start = \<lparr>line = line offset, col = col offset\<rparr>,
         tok_end = \<lparr>line = line offset, col = col offset + 13\<rparr>, attrs = TabStop 1\<rparr>,
       \<lparr>initial_text = [], tok_start = \<lparr>line = line offset, col = col offset + 13\<rparr>,
         tok_end = \<lparr>line = line offset, col = col offset + 13\<rparr>, attrs = EndOfText\<rparr>],
      None)"
    by (rule tabstop_example)
qed

theorem C5_tabstop_witness:
  "upcoming (TextIterator ''${12:a{b}c}d'' \<lparr>line = 0, col = 0\<rparr>) =
     ''${'' @ ''12'' @ CHR '':'' # ''a{b}c}d'' \<and>
   list_all (\<lambda>d. d \<in> set string_digits) ''12'' \<and>
   TabStopToken_starts_here (TextIterator ''${12:a{b}c}d'' \<lparr>line = 0, col = 0\<rparr>) \<and>
   parse_till_closing_brace \<lparr>s_text = ''${12:a{b}c}d'', s_line = 0, s_col = 5, s_idx = 5\<rparr> =
     Inr (''a{b}c'', \<lparr>s_text = ''${12:a{b}c}d'', s_line = 0, s_col = 11, s_idx = 11\<rparr>) \<and>
   balanced ''a{b}c'' \<and>
   TabStopToken_parse (TextIterator ''${12:a{b}c}d'' \<lparr>line = 0, col = 0\<rparr>) [] =
     Inr ((''a{b}c'', TabStop 12),
          \<lparr>s_text = ''${12:a{b}c}d'', s_line = 0, s_col = 11, s_idx = 11\<rparr>) \<and>
   decimal ''12'' = 12"
proof -
  let ?t = "''${12:a{b}c}d''"
  let ?s0 = "TextIterator ?t \<lparr>line = 0, col = 0\<rparr>"
  let ?s5 = "\<lparr>s_text = ?t, s_line = 0, s_col = 5, s_idx = 5\<rparr>"
  let ?s11 = "\<lparr>s_text = ?t, s_line = 0, s_col = 11, s_idx = 11\<rparr>"
  have u: "upcoming ?s0 = ''${'' @ ''12'' @ CHR '':'' # ''a{b}c}d''" by code_simp
  have d: "list_all (\<lambda>d. d \<in> set string_digits) ''12''" by code_simp
  have p: "parse_till_closing_brace ?s5 = Inr (''a{b}c'', ?s11)" by code_simp
  have tp: "TabStopToken_parse ?s0 [] = Inr ((''a{b}c'', TabStop 12), ?s11)" by code_simp
  have dc: "decimal ''12'' = 12" by code_simp
  note c5 = C5_tabstop [of ?s0 "''12''" "CHR '':''" "''a{b}c}d''" "[]" ?s5 "''a{b}c''" ?s11]
  have h: "upcoming ?s0 = ''${'' @ ''12'' @ CHR '':'' # ''a{b}c}d'' \<and> ''12'' \<noteq> [] \<and>
      list_all (\<lambda>d. d \<in> set string_digits) ''12'' \<and> length ''12'' \<le> 7 \<and>
      CHR '':'' \<in> set '':}''"
    using u d by simp
  from c5 h have st: "TabStopToken_starts_here ?s0" by blast
  from c5 p have "balanced ''a{b}c''" by blast
  with u d st p tp dc show ?thesis by simp
qed

end
